theory Spec2Isabelle
  imports Main
begin

section \<open>Values, rows and the two stores\<close>

text \<open>
  The migration script \<^verbatim>\<open>populate_db.py\<close> copies every table of an SQLite file into a
  PostgreSQL database. A cell read from SQLite is NULL, an integer, a finite double
  (\<open>RealV m e\<close> is the number \<open>m \<cdot> 2\<^sup>e\<close>), a text or a blob; the target also stores
  timestamps (year, month, day, hour, minute, second, microsecond). Unquoted identifiers
  are compared as PostgreSQL compares them, without regard to case: each name is written in
  one spelling, that of the script.
\<close>

datatype val =
    Null
  | IntV int
  | RealV int int
  | TextV string
  | BlobV string
  | TimeV int int int int int int int

type_synonym row = "val list"
type_synonym ident = string

text \<open>
  The source store, as the script reads it: the catalog in the order of
  \<^verbatim>\<open>SELECT name FROM sqlite_master WHERE type='table'\<close>; for each table the column names
  of \<^verbatim>\<open>cur_s.description\<close> and the rows of \<^verbatim>\<open>SELECT * FROM table\<close>.
\<close>

type_synonym source_table = "ident \<times> ident list \<times> row list"
type_synonym source_db = "source_table list"

text \<open>The column types that the schema script declares.\<close>

datatype sqltype = SERIAL | INTEGER | TEXT | REAL | TIMESTAMP

text \<open>
  A table of the target store: its columns and their types, the NOT NULL columns, the
  PRIMARY KEY and UNIQUE constraints (each a list of columns), the FOREIGN KEY constraints
  (column, referenced table, referenced column), the next value of the sequence of each
  SERIAL column (1 when none is recorded) and the stored rows, each in the order of
  \<open>t_cols\<close>.
\<close>

record table =
  t_cols :: "ident list"
  t_types :: "sqltype list"
  t_notnull :: "ident list"
  t_unique :: "ident list list"
  t_fkeys :: "(ident \<times> ident \<times> ident) list"
  t_seqs :: "(ident \<times> int) list"
  t_rows :: "row list"

type_synonym db = "ident \<rightharpoonup> table"

text \<open>
  A psycopg2 connection without autocommit: statements act on the open transaction
  (\<open>working\<close>); \<open>commit\<close> publishes it, \<open>rollback\<close> discards it.
\<close>

record pg_conn =
  committed :: db
  working :: db

definition commit :: "pg_conn \<Rightarrow> pg_conn" where
  "commit pg = pg\<lparr>committed := working pg\<rparr>"

definition rollback :: "pg_conn \<Rightarrow> pg_conn" where
  "rollback pg = pg\<lparr>working := committed pg\<rparr>"

text \<open>
  The errors of an insert: those the driver raises while it writes the statement
  (\<open>StringWithNul\<close>, \<open>BadRow\<close>) and those of the server.
\<close>

datatype db_error =
    UndefinedTable ident
  | UndefinedColumn ident
  | DuplicateColumn
  | BadRow
  | StringWithNul
  | ColumnCountMismatch
  | DatatypeMismatch
  | InvalidTextRepresentation
  | InvalidDatetimeFormat
  | DatetimeFieldOverflow
  | NumericValueOutOfRange
  | CastNotModelled
  | NotNullViolation ident
  | ForeignKeyViolation ident

section \<open>Values and column types\<close>

text \<open>
  \<^verbatim>\<open>INTEGER\<close> and \<^verbatim>\<open>SERIAL\<close> columns hold 32-bit signed integers.
\<close>

definition int4 :: "int \<Rightarrow> db_error + val" where
  "int4 i = (if - 2147483648 \<le> i \<and> i \<le> 2147483647 then Inr (IntV i)
             else Inl NumericValueOutOfRange)"

text \<open>The number of binary digits of a positive integer.\<close>

function bits :: "int \<Rightarrow> nat" where
  "bits n = (if n \<le> 0 then 0 else Suc (bits (n div 2)))"
  by pat_completeness auto
termination
  by (relation "measure nat") auto

declare bits.simps [simp del]

text \<open>
  The integer nearest to \<open>a / b\<close>, for \<open>a\<close> not negative and \<open>b\<close> positive; of two nearest
  ones, the even one.
\<close>

definition round_even :: "int \<Rightarrow> int \<Rightarrow> int" where
  "round_even a b =
     (let q = a div b; r = a mod b
      in if 2 * r < b then q else if b < 2 * r then q + 1 else if even q then q else q + 1)"

text \<open>The integer nearest to \<open>a / b\<close>; of two nearest ones, the larger one.\<close>

definition round_away :: "int \<Rightarrow> int \<Rightarrow> int" where
  "round_away a b = (if b \<le> 2 * (a mod b) then a div b + 1 else a div b)"

text \<open>A real is stored with an odd mantissa, zero as \<open>RealV 0 0\<close>.\<close>

function canon :: "int \<Rightarrow> int \<Rightarrow> val" where
  "canon m e = (if m = 0 then RealV 0 0
                else if even m then canon (m div 2) (e + 1) else RealV m e)"
  by pat_completeness auto
termination
  by (relation "measure (\<lambda>(m, e). nat \<bar>m\<bar>)") auto

declare canon.simps [simp del]

text \<open>
  \<^verbatim>\<open>REAL\<close> columns hold single-precision numbers: a mantissa of at most 24 binary digits
  and a binary exponent of at least -149. \<open>float4 neg a b\<close> is the single-precision number
  nearest to \<open>a / b\<close> (negated when \<open>neg\<close>), ties going to the even mantissa. A number too
  large for the type, or one other than zero that rounds to zero, is out of range.
  PostgreSQL rounds the decimal literal that the driver writes for a double, the shortest
  one that reads back as the same double; the result is the single-precision number
  nearest to the double itself, except when the double lies exactly halfway between two
  single-precision numbers, where the literal decides and the model takes the even one.
\<close>

definition float4 :: "bool \<Rightarrow> int \<Rightarrow> int \<Rightarrow> db_error + val" where
  "float4 neg a b =
     (if a = 0 then Inr (RealV 0 0)
      else
        let l = int (bits a) - int (bits b);
            fl = (if b * 2 ^ nat l \<le> a * 2 ^ nat (- l) then l else l - 1);
            p = max (fl - 23) (- 149);
            k = round_even (a * 2 ^ nat (- p)) (b * 2 ^ nat p)
        in if k = 0 \<or> 128 < int (bits k) + p then Inl NumericValueOutOfRange
           else Inr (canon (if neg then - k else k) p))"

text \<open>Decimal digits.\<close>

definition digit_of :: "char \<Rightarrow> int option" where
  "digit_of c = map_of (zip ''0123456789'' [0, 1, 2, 3, 4, 5, 6, 7, 8, 9]) c"

fun int_of_digits :: "int \<Rightarrow> string \<Rightarrow> int option" where
  "int_of_digits acc [] = Some acc"
| "int_of_digits acc (c # cs) =
     (case digit_of c of None \<Rightarrow> None | Some d \<Rightarrow> int_of_digits (10 * acc + d) cs)"

definition parse_nat :: "string \<Rightarrow> int option" where
  "parse_nat s = (if s = [] then None else int_of_digits 0 s)"

fun signed :: "string \<Rightarrow> int option" where
  "signed [] = None"
| "signed (c # cs) =
     (if c = CHR ''-'' then map_option uminus (parse_nat cs)
      else if c = CHR ''+'' then parse_nat cs
      else parse_nat (c # cs))"

function digits :: "int \<Rightarrow> string" where
  "digits n = (if n < 10 then [''0123456789'' ! nat n]
               else digits (n div 10) @ [''0123456789'' ! nat (n mod 10)])"
  by pat_completeness auto
termination
  by (relation "measure nat") auto

declare digits.simps [simp del]

definition show_int :: "int \<Rightarrow> string" where
  "show_int i = (if i < 0 then CHR ''-'' # digits (- i) else digits i)"

definition is_space :: "char \<Rightarrow> bool" where
  "is_space c = (c \<in> set [CHR '' '', CHR 0x09, CHR 0x0A, CHR 0x0B, CHR 0x0C, CHR 0x0D])"

definition trim :: "string \<Rightarrow> string" where
  "trim s = rev (dropWhile is_space (rev (dropWhile is_space s)))"

text \<open>
  What the input functions of the server make of a text literal. The model reads the
  plain decimal spellings: an integer as an optional sign and digits; a number as an
  optional sign, digits with an optional fraction, and an optional exponent; a timestamp
  as \<^verbatim>\<open>YYYY-MM-DD\<close>, alone or followed by a blank or \<^verbatim>\<open>T\<close> and \<^verbatim>\<open>HH:MM\<close>,
  \<^verbatim>\<open>HH:MM:SS\<close> or \<^verbatim>\<open>HH:MM:SS.ffffff\<close>. Blanks around the literal are ignored. PostgreSQL
  reads further spellings (\<^verbatim>\<open>Infinity\<close>, month names, time zones, and since version 16
  hexadecimal integers); the model reports them as invalid, so that it accepts no literal
  that the server refuses.
\<close>

definition parse_decimal :: "string \<Rightarrow> (bool \<times> int \<times> int) option" where
  "parse_decimal s =
     (let t = trim s;
          neg = (t \<noteq> [] \<and> hd t = CHR ''-'');
          u = (if t \<noteq> [] \<and> hd t \<in> set ''+-'' then tl t else t);
          mant = takeWhile (\<lambda>c. c \<notin> set ''eE'') u;
          ex = dropWhile (\<lambda>c. c \<notin> set ''eE'') u;
          ip = takeWhile (\<lambda>c. c \<noteq> CHR ''.'') mant;
          fp = drop 1 (dropWhile (\<lambda>c. c \<noteq> CHR ''.'') mant)
      in (case (parse_nat (ip @ fp), if ex = [] then Some 0 else signed (tl ex)) of
            (Some m, Some x) \<Rightarrow>
              let sc = x - int (length fp)
              in Some (neg, m * 10 ^ nat sc, 10 ^ nat (- sc))
          | _ \<Rightarrow> None))"

definition leap_year :: "int \<Rightarrow> bool" where
  "leap_year y = (y mod 4 = 0 \<and> (y mod 100 \<noteq> 0 \<or> y mod 400 = 0))"

definition days_in_month :: "int \<Rightarrow> int \<Rightarrow> int" where
  "days_in_month y m =
     (if m = 2 then (if leap_year y then 29 else 28)
      else if m \<in> set [4, 6, 9, 11] then 30 else 31)"

definition parse_date :: "string \<Rightarrow> (int \<times> int \<times> int) option" where
  "parse_date s =
     (if length s = 10 \<and> s ! 4 = CHR ''-'' \<and> s ! 7 = CHR ''-'' then
        (case (parse_nat (take 4 s), parse_nat (take 2 (drop 5 s)), parse_nat (drop 8 s)) of
           (Some y, Some m, Some d) \<Rightarrow> Some (y, m, d)
         | _ \<Rightarrow> None)
      else None)"

definition parse_time :: "string \<Rightarrow> (int \<times> int \<times> int \<times> int) option" where
  "parse_time s =
     (if 5 \<le> length s \<and> s ! 2 = CHR '':'' then
        (case (parse_nat (take 2 s), parse_nat (take 2 (drop 3 s))) of
           (Some h, Some mi) \<Rightarrow>
             let rest = drop 5 s in
             if rest = [] then Some (h, mi, 0, 0)
             else if 3 \<le> length rest \<and> hd rest = CHR '':'' then
               (case parse_nat (take 2 (drop 1 rest)) of
                  None \<Rightarrow> None
                | Some sec \<Rightarrow>
                    let fr = drop 3 rest in
                    if fr = [] then Some (h, mi, sec, 0)
                    else if hd fr = CHR ''.'' \<and> 2 \<le> length fr \<and> length fr \<le> 7 then
                      map_option (\<lambda>f. (h, mi, sec, f * 10 ^ (7 - length fr))) (parse_nat (tl fr))
                    else None)
             else None
         | _ \<Rightarrow> None)
      else None)"

definition timestamp_in :: "string \<Rightarrow> db_error + val" where
  "timestamp_in s =
     (let t = trim s;
          sep = (10 < length t \<and> t ! 10 \<in> set '' T'')
      in if length t \<noteq> 10 \<and> \<not> sep then Inl InvalidDatetimeFormat
         else
           (case (parse_date (take 10 t),
                  if sep then parse_time (drop 11 t) else Some (0, 0, 0, 0)) of
              (Some (y, m, d), Some (h, mi, sec, us)) \<Rightarrow>
                if 1 \<le> y \<and> 1 \<le> m \<and> m \<le> 12 \<and> 1 \<le> d \<and> d \<le> days_in_month y m \<and>
                   h \<le> 23 \<and> mi \<le> 59 \<and> sec \<le> 59
                then Inr (TimeV y m d h mi sec us)
                else Inl DatetimeFieldOverflow
            | _ \<Rightarrow> Inl InvalidDatetimeFormat))"

text \<open>
  The value that a column of a given type stores for a value of the source, or the error
  of the conversion. The driver writes an integer and a double as a number, a text as a
  quoted literal that the server reads with the input function of the column type, and a
  blob as a \<^verbatim>\<open>bytea\<close> literal, which none of the five types accepts. A number becomes an
  \<^verbatim>\<open>INTEGER\<close> by rounding (halves away from zero) and a text by its decimal digits when it
  is an integer; the decimal text of a double depends on the literal of the driver and is
  not modelled (\<open>CastNotModelled\<close>).
\<close>

fun assign :: "sqltype \<Rightarrow> val \<Rightarrow> db_error + val" where
  "assign ty Null = Inr Null"
| "assign INTEGER (IntV i) = int4 i"
| "assign SERIAL (IntV i) = int4 i"
| "assign REAL (IntV i) = float4 (i < 0) \<bar>i\<bar> 1"
| "assign TEXT (IntV i) = Inr (TextV (show_int i))"
| "assign TIMESTAMP (IntV i) = Inl DatatypeMismatch"
| "assign INTEGER (RealV m e) =
     int4 ((if m < 0 then - 1 else 1) * round_away (\<bar>m\<bar> * 2 ^ nat e) (2 ^ nat (- e)))"
| "assign SERIAL (RealV m e) =
     int4 ((if m < 0 then - 1 else 1) * round_away (\<bar>m\<bar> * 2 ^ nat e) (2 ^ nat (- e)))"
| "assign REAL (RealV m e) = float4 (m < 0) (\<bar>m\<bar> * 2 ^ nat e) (2 ^ nat (- e))"
| "assign TEXT (RealV m e) = Inl CastNotModelled"
| "assign TIMESTAMP (RealV m e) = Inl DatatypeMismatch"
| "assign INTEGER (TextV s) =
     (case signed (trim s) of None \<Rightarrow> Inl InvalidTextRepresentation | Some i \<Rightarrow> int4 i)"
| "assign SERIAL (TextV s) =
     (case signed (trim s) of None \<Rightarrow> Inl InvalidTextRepresentation | Some i \<Rightarrow> int4 i)"
| "assign REAL (TextV s) =
     (case parse_decimal s of
        None \<Rightarrow> Inl InvalidTextRepresentation
      | Some (neg, a, b) \<Rightarrow> float4 neg a b)"
| "assign TEXT (TextV s) = Inr (TextV s)"
| "assign TIMESTAMP (TextV s) = timestamp_in s"
| "assign ty (BlobV b) = Inl DatatypeMismatch"
| "assign TIMESTAMP (TimeV y m d h mi sec us) = Inr (TimeV y m d h mi sec us)"
| "assign TEXT (TimeV y m d h mi sec us) = Inl CastNotModelled"
| "assign ty (TimeV y m d h mi sec us) = Inl DatatypeMismatch"

text \<open>
  The source value and the type agree in kind: an integer for an integer column, a text
  for a text column, NULL for any column.
\<close>

fun same_kind :: "sqltype \<Rightarrow> val \<Rightarrow> bool" where
  "same_kind ty Null = True"
| "same_kind INTEGER (IntV i) = True"
| "same_kind SERIAL (IntV i) = True"
| "same_kind TEXT (TextV s) = True"
| "same_kind ty v = False"

text \<open>
  The server converts a quoted literal while it parses the statement and finds there that
  a number or a blob has no conversion to the column type; a number out of range is found
  afterwards, when the statement is planned.
\<close>

definition raised_early :: "val \<Rightarrow> db_error \<Rightarrow> bool" where
  "raised_early v e = ((case v of TextV s \<Rightarrow> True | _ \<Rightarrow> False) \<or> e \<noteq> NumericValueOutOfRange)"

section \<open>The insert statement\<close>

text \<open>The value a row holds in a column; a column the row does not supply is NULL.\<close>

definition cell :: "ident list \<Rightarrow> row \<Rightarrow> ident \<Rightarrow> val" where
  "cell cols r c = (case map_of (zip cols r) c of Some v \<Rightarrow> v | None \<Rightarrow> Null)"

definition col_type :: "table \<Rightarrow> ident \<Rightarrow> sqltype" where
  "col_type tb c = (case map_of (zip (t_cols tb) (t_types tb)) c of Some ty \<Rightarrow> ty | None \<Rightarrow> TEXT)"

definition seq_next :: "table \<Rightarrow> ident \<Rightarrow> int" where
  "seq_next tb c = (case map_of (t_seqs tb) c of Some k \<Rightarrow> k | None \<Rightarrow> 1)"

text \<open>
  \<^verbatim>\<open>INSERT INTO t(icols) VALUES ...\<close> stores each value, converted to the type of its
  column, under the column it is named for. A column that the statement does not name
  receives its default: the next value of its sequence for a \<^verbatim>\<open>SERIAL\<close> column, each row
  of the statement taking one value, and NULL otherwise. \<open>stored_row tb icols k r\<close> is what
  the statement makes of its row number \<open>k\<close>, counted from 0.
\<close>

definition stored_cell :: "table \<Rightarrow> ident list \<Rightarrow> nat \<Rightarrow> row \<Rightarrow> ident \<Rightarrow> val" where
  "stored_cell tb icols k r c =
     (if c \<in> set icols then
        (case assign (col_type tb c) (cell icols r c) of Inr v \<Rightarrow> v | Inl e \<Rightarrow> Null)
      else if col_type tb c = SERIAL then IntV (seq_next tb c + int k)
      else Null)"

definition stored_row :: "table \<Rightarrow> ident list \<Rightarrow> nat \<Rightarrow> row \<Rightarrow> row" where
  "stored_row tb icols k r = map (stored_cell tb icols k r) (t_cols tb)"

definition stored_rows :: "table \<Rightarrow> ident list \<Rightarrow> row list \<Rightarrow> row list" where
  "stored_rows tb icols rs = map (\<lambda>(k, r). stored_row tb icols k r) (enumerate 0 rs)"

text \<open>The sequences after a statement of \<open>n\<close> rows.\<close>

definition next_seqs :: "table \<Rightarrow> ident list \<Rightarrow> nat \<Rightarrow> (ident \<times> int) list" where
  "next_seqs tb icols n =
     map (\<lambda>c. (c, seq_next tb c + (if c \<in> set icols then 0 else int n)))
         (filter (\<lambda>c. col_type tb c = SERIAL) (t_cols tb))"

text \<open>Two rows hold the same key when they agree, without NULL, on every column of it.\<close>

definition same_key :: "ident list \<Rightarrow> ident list \<Rightarrow> row \<Rightarrow> row \<Rightarrow> bool" where
  "same_key tcols k r r' =
     (k \<noteq> [] \<and> list_all (\<lambda>c. cell tcols r c \<noteq> Null \<and> cell tcols r c = cell tcols r' c) k)"

definition clash :: "table \<Rightarrow> row \<Rightarrow> row \<Rightarrow> bool" where
  "clash tb r r' = list_ex (\<lambda>k. same_key (t_cols tb) k r r') (t_unique tb)"

definition conflicts :: "table \<Rightarrow> row \<Rightarrow> bool" where
  "conflicts tb r = list_ex (clash tb r) (t_rows tb)"

text \<open>\<^verbatim>\<open>ON CONFLICT DO NOTHING\<close>: a row whose key is held by a stored row is skipped.\<close>

definition ins_row :: "table \<Rightarrow> row \<Rightarrow> table" where
  "ins_row tb r = (if conflicts tb r then tb else tb\<lparr>t_rows := t_rows tb @ [r]\<rparr>)"

definition fk_ok :: "db \<Rightarrow> ident list \<Rightarrow> ident \<times> ident \<times> ident \<Rightarrow> row \<Rightarrow> bool" where
  "fk_ok d tcols fk r =
     (case fk of (c, rt, rc) \<Rightarrow>
        cell tcols r c = Null \<or>
        (case d rt of
           None \<Rightarrow> False
         | Some rtb \<Rightarrow> list_ex (\<lambda>r'. cell (t_cols rtb) r' rc = cell tcols r c) (t_rows rtb)))"

text \<open>
  The driver writes the rows one after the other, each with as many values as the first
  row has: a text that holds the character NUL, or a row of another length, ends the call
  before anything is sent.
\<close>

definition has_nul :: "val \<Rightarrow> bool" where
  "has_nul v = (case v of TextV s \<Rightarrow> CHR 0x00 \<in> set s | _ \<Rightarrow> False)"

definition driver_error :: "row list \<Rightarrow> db_error option" where
  "driver_error rs =
     (case find (\<lambda>r. list_ex has_nul r \<or> length r \<noteq> length (hd rs)) rs of
        None \<Rightarrow> None
      | Some r \<Rightarrow> Some (if list_ex has_nul r then StringWithNul else BadRow))"

text \<open>The column list is checked name by name: the column exists and was not named before.\<close>

fun check_columns :: "ident list \<Rightarrow> ident list \<Rightarrow> ident list \<Rightarrow> db_error option" where
  "check_columns tcols seen [] = None"
| "check_columns tcols seen (c # cs) =
     (if c \<notin> set tcols then Some (UndefinedColumn c)
      else if c \<in> set seen then Some DuplicateColumn
      else check_columns tcols (c # seen) cs)"

text \<open>
  The conversion errors of a statement, row by row and in each row column by column, each
  with the value that caused it; the statement reports the first one raised early, or else
  the first one.
\<close>

definition conversion_errors :: "table \<Rightarrow> ident list \<Rightarrow> row list \<Rightarrow> (val \<times> db_error) list" where
  "conversion_errors tb icols rs =
     concat (map (\<lambda>r. concat (map (\<lambda>c. case assign (col_type tb c) (cell icols r c) of
                                          Inl e \<Rightarrow> [(cell icols r c, e)]
                                        | Inr v \<Rightarrow> [])
                                  icols))
                 rs)"

definition conversion_error :: "table \<Rightarrow> ident list \<Rightarrow> row list \<Rightarrow> db_error option" where
  "conversion_error tb icols rs =
     (let errs = conversion_errors tb icols rs
      in case find (\<lambda>(v, e). raised_early v e) errs of
           Some (v, e) \<Rightarrow> Some e
         | None \<Rightarrow> (case errs of [] \<Rightarrow> None | (v, e) # es \<Rightarrow> Some e))"

text \<open>The NOT NULL columns in the order of the table.\<close>

definition notnull_cols :: "table \<Rightarrow> ident list" where
  "notnull_cols tb = filter (\<lambda>c. c \<in> set (t_notnull tb)) (t_cols tb)"

text \<open>
  One multi-row \<^verbatim>\<open>INSERT INTO T(icols) VALUES ... ON CONFLICT DO NOTHING\<close>. The statement
  is atomic: any error leaves the store as it was. The errors come in the order in which
  driver and server meet them: the driver's, the table, the column list, the number of
  values, the conversions; then the rows are stored one after the other, a NULL in a NOT
  NULL column being an error whether or not the row would have been skipped; foreign keys
  are checked for the rows that were stored, at the end of the statement. PostgreSQL does
  not take back the values that a failed statement or a rolled back transaction drew from
  a sequence; the model does, and no result below depends on a sequence after a failure.
\<close>

definition insert_stmt :: "ident \<Rightarrow> ident list \<Rightarrow> row list \<Rightarrow> db \<Rightarrow> db_error + db" where
  "insert_stmt T icols rs d =
     (case driver_error rs of
        Some e \<Rightarrow> Inl e
      | None \<Rightarrow>
     (case d T of
        None \<Rightarrow> Inl (UndefinedTable T)
      | Some tb \<Rightarrow>
     (case check_columns (t_cols tb) [] icols of
        Some e \<Rightarrow> Inl e
      | None \<Rightarrow>
     if list_ex (\<lambda>r. length r \<noteq> length icols) rs then Inl ColumnCountMismatch
     else
     (case conversion_error tb icols rs of
        Some e \<Rightarrow> Inl e
      | None \<Rightarrow>
     let new = stored_rows tb icols rs in
     (case find (\<lambda>(r, c). cell (t_cols tb) r c = Null) (List.product new (notnull_cols tb)) of
        Some (r, c) \<Rightarrow> Inl (NotNullViolation c)
      | None \<Rightarrow>
     let tb' = (foldl ins_row tb new)\<lparr>t_seqs := next_seqs tb icols (length rs)\<rparr>;
         d' = d(T \<mapsto> tb');
         added = drop (length (t_rows tb)) (t_rows tb')
     in (case find (\<lambda>(r, fk). \<not> fk_ok d' (t_cols tb) fk r) (List.product added (t_fkeys tb)) of
           Some (r, fk) \<Rightarrow> Inl (ForeignKeyViolation (fst fk))
         | None \<Rightarrow> Inr d'))))))"

text \<open>The table after a statement that stored its rows.\<close>

definition after_insert :: "table \<Rightarrow> ident list \<Rightarrow> row list \<Rightarrow> table" where
  "after_insert tb cols rs =
     (foldl ins_row tb (stored_rows tb cols rs))\<lparr>t_seqs := next_seqs tb cols (length rs)\<rparr>"

section \<open>execute_values\<close>

text \<open>
  \<^verbatim>\<open>execute_values(cur, sql, argslist, page_size)\<close> cuts \<open>argslist\<close> into pages of
  \<open>page_size\<close> rows and executes one statement per page. The model describes a
  positive \<open>page_size\<close> (the script passes its batch size, 25000 by default); what the
  libraries do with a batch size of 0 depends on their version and is not claimed here.
\<close>

function paginate :: "nat \<Rightarrow> 'a list \<Rightarrow> 'a list list" where
  "paginate n xs = (if n = 0 \<or> xs = [] then [] else take n xs # paginate n (drop n xs))"
  by pat_completeness auto
termination
  by (relation "measure (\<lambda>(n, xs). length xs)") auto

declare paginate.simps [simp del]

fun exec_pages :: "ident \<Rightarrow> ident list \<Rightarrow> row list list \<Rightarrow> pg_conn \<Rightarrow> db_error option \<times> pg_conn" where
  "exec_pages T icols [] pg = (None, pg)"
| "exec_pages T icols (p # ps) pg =
     (case insert_stmt T icols p (working pg) of
        Inl e \<Rightarrow> (Some e, pg)
      | Inr d' \<Rightarrow> exec_pages T icols ps (pg\<lparr>working := d'\<rparr>))"

definition execute_values ::
  "ident \<Rightarrow> ident list \<Rightarrow> row list \<Rightarrow> nat \<Rightarrow> pg_conn \<Rightarrow> db_error option \<times> pg_conn" where
  "execute_values T icols rows page_size pg = exec_pages T icols (paginate page_size rows) pg"

section \<open>The paged transfer\<close>

text \<open>
  Exceptions of the interpreter and of the two drivers, as far as the script can meet them.
\<close>

datatype py_error =
    NameError string
  | KeyError string
  | TypeError string
  | AttributeError string
  | OperationalError
  | DatabaseError db_error

datatype resource = SrcConn | TgtConn | SrcCursor | TgtCursor

datatype out_line =
    Msg string
  | Exc py_error
  | Starting ident
  | Batch nat
  | Finished ident nat
  | ErrorLine db_error
  | TotalTime

text \<open>
  What a run does, in order: the lines it prints (durations left out), the connections and
  cursors it opens and closes, and the calls it makes on the target connection.
\<close>

datatype event =
    Print out_line
  | Acquire resource
  | Release resource
  | ExecScript
  | Insert ident "ident list" "row list"
  | Commit
  | Rollback

text \<open>
  The \<^verbatim>\<open>while True\<close> loop of one table. \<open>pending\<close> is what the source cursor has not yet
  returned; \<^verbatim>\<open>fetchmany(batch_size)\<close> returns its next \<open>batch_size\<close> rows, for a
  positive \<open>batch_size\<close>. The source cursor is taken to answer every query: the exceptions
  of the transfer are those of the insert on the target. The result is the exception that
  left the loop, or \<open>total_rows_table\<close>.
\<close>

function fetch_loop ::
  "nat \<Rightarrow> ident \<Rightarrow> ident list \<Rightarrow> row list \<Rightarrow> nat \<Rightarrow> pg_conn \<Rightarrow> (db_error + nat) \<times> pg_conn \<times> event list" where
  "fetch_loop batch_size T cols pending total_rows_table pg =
     (let rows = take batch_size pending in
      if rows = [] then (Inr total_rows_table, pg, [])
      else
        (case execute_values T cols rows batch_size pg of
           (Some e, pg1) \<Rightarrow> (Inl e, pg1, [Insert T cols rows])
         | (None, pg1) \<Rightarrow>
             let pg2 = commit pg1;
                 total_rows_table' = total_rows_table + length rows
             in (case fetch_loop batch_size T cols (drop batch_size pending) total_rows_table' pg2 of
                   (res, pg3, evs) \<Rightarrow>
                     (res, pg3, [Insert T cols rows, Commit, Print (Batch total_rows_table')] @ evs))))"
  by pat_completeness auto
termination
  by (relation "measure (\<lambda>(b, T, cols, pending, total_rows_table, pg). length pending)") auto

declare fetch_loop.simps [simp del]

text \<open>The body of \<^verbatim>\<open>for table in tables\<close>.\<close>

definition transfer_table ::
  "nat \<Rightarrow> source_table \<Rightarrow> pg_conn \<Rightarrow> db_error option \<times> pg_conn \<times> event list" where
  "transfer_table batch_size st pg =
     (case st of (T, cols, rows) \<Rightarrow>
        (case fetch_loop batch_size T cols rows 0 pg of
           (Inl e, pg', evs) \<Rightarrow> (Some e, pg', Print (Starting T) # evs)
         | (Inr total_rows_table, pg', evs) \<Rightarrow>
             (None, pg', Print (Starting T) # evs @ [Print (Finished T total_rows_table)])))"

fun transfer_tables ::
  "nat \<Rightarrow> source_db \<Rightarrow> pg_conn \<Rightarrow> db_error option \<times> pg_conn \<times> event list" where
  "transfer_tables batch_size [] pg = (None, pg, [])"
| "transfer_tables batch_size (st # sts) pg =
     (case transfer_table batch_size st pg of
        (Some e, pg', evs) \<Rightarrow> (Some e, pg', evs)
      | (None, pg', evs) \<Rightarrow>
          (case transfer_tables batch_size sts pg' of
             (res, pg'', evs') \<Rightarrow> (res, pg'', evs @ evs')))"

text \<open>
  \<^verbatim>\<open>load_sqlite_to_postgres(conn_s, conn_p, batch_size)\<close>: both cursors are opened, the
  tables are transferred inside \<^verbatim>\<open>try\<close>, an exception is printed and answered with
  \<^verbatim>\<open>conn_p.rollback()\<close>, and \<^verbatim>\<open>finally\<close> closes the cursors and prints the total time.
  The Python function returns nothing; the first component tells which exception the
  handler caught, if any.
\<close>

definition load_sqlite_to_postgres ::
  "source_db \<Rightarrow> pg_conn \<Rightarrow> nat \<Rightarrow> db_error option \<times> pg_conn \<times> event list" where
  "load_sqlite_to_postgres conn_s conn_p batch_size =
     (case transfer_tables batch_size conn_s conn_p of
        (None, pg, evs) \<Rightarrow>
          (None, pg,
           [Acquire SrcCursor, Acquire TgtCursor] @ evs @
           [Release SrcCursor, Release TgtCursor, Print TotalTime])
      | (Some e, pg, evs) \<Rightarrow>
          (Some e, rollback pg,
           [Acquire SrcCursor, Acquire TgtCursor] @ evs @ [Print (ErrorLine e), Rollback] @
           [Release SrcCursor, Release TgtCursor, Print TotalTime]))"

section \<open>The schema script\<close>

text \<open>
  \<^verbatim>\<open>STAGING_CREATE_SQL\<close> holds two kinds of statement:
  \<^verbatim>\<open>DROP TABLE IF EXISTS t CASCADE\<close> and \<^verbatim>\<open>CREATE TABLE IF NOT EXISTS t(...)\<close>.
\<close>

datatype ddl = DropIfExistsCascade ident | CreateIfNotExists ident table

text \<open>A new table: no row, every sequence at its first value.\<close>

definition new_table ::
  "ident list \<Rightarrow> sqltype list \<Rightarrow> ident list \<Rightarrow> ident list list \<Rightarrow>
   (ident \<times> ident \<times> ident) list \<Rightarrow> table" where
  "new_table cols types notnull uniq fkeys =
     \<lparr>t_cols = cols, t_types = types, t_notnull = notnull, t_unique = uniq, t_fkeys = fkeys,
      t_seqs = [], t_rows = []\<rparr>"

definition STAGING_CREATE_SQL :: "ddl list" where
  "STAGING_CREATE_SQL =
     [DropIfExistsCascade ''ProductCategory'',
      DropIfExistsCascade ''OrderDetail'',
      DropIfExistsCascade ''Product'',
      DropIfExistsCascade ''Customer'',
      DropIfExistsCascade ''Country'',
      DropIfExistsCascade ''Region'',
      CreateIfNotExists ''Region''
        (new_table [''RegionID'', ''Region'']
                   [SERIAL, TEXT]
                   [''RegionID'', ''Region'']
                   [[''RegionID''], [''Region'']]
                   []),
      CreateIfNotExists ''Country''
        (new_table [''CountryID'', ''Country'', ''RegionID'']
                   [SERIAL, TEXT, INTEGER]
                   [''CountryID'', ''Country'', ''RegionID'']
                   [[''CountryID''], [''Country'']]
                   [(''RegionID'', ''Region'', ''RegionID'')]),
      CreateIfNotExists ''Customer''
        (new_table [''CustomerID'', ''FirstName'', ''LastName'', ''Address'', ''City'', ''CountryID'']
                   [SERIAL, TEXT, TEXT, TEXT, TEXT, INTEGER]
                   [''CustomerID'', ''FirstName'', ''LastName'', ''Address'', ''City'', ''CountryID'']
                   [[''CustomerID'']]
                   [(''CountryID'', ''Country'', ''CountryID'')]),
      CreateIfNotExists ''ProductCategory''
        (new_table [''ProductCategoryID'', ''ProductCategory'', ''ProductCategoryDescription'']
                   [SERIAL, TEXT, TEXT]
                   [''ProductCategoryID'', ''ProductCategory'', ''ProductCategoryDescription'']
                   [[''ProductCategoryID''], [''ProductCategory'']]
                   []),
      CreateIfNotExists ''Product''
        (new_table [''ProductID'', ''ProductName'', ''ProductUnitPrice'', ''ProductCategoryID'']
                   [SERIAL, TEXT, REAL, INTEGER]
                   [''ProductID'', ''ProductName'', ''ProductUnitPrice'', ''ProductCategoryID'']
                   [[''ProductID''], [''ProductName'']]
                   [(''ProductCategoryID'', ''ProductCategory'', ''ProductCategoryID'')]),
      CreateIfNotExists ''OrderDetail''
        (new_table [''OrderID'', ''CustomerID'', ''ProductID'', ''OrderDate'', ''QuantityOrdered'']
                   [SERIAL, INTEGER, INTEGER, TIMESTAMP, INTEGER]
                   [''OrderID'', ''CustomerID'', ''ProductID'', ''OrderDate'', ''QuantityOrdered'']
                   [[''OrderID'']]
                   [(''CustomerID'', ''Customer'', ''CustomerID''),
                    (''ProductID'', ''Product'', ''ProductID'')])]"

text \<open>\<^verbatim>\<open>CASCADE\<close> removes, with the table, the foreign keys of other tables that refer to it.\<close>

definition drop_fkeys_to :: "ident \<Rightarrow> table \<Rightarrow> table" where
  "drop_fkeys_to T tb = tb\<lparr>t_fkeys := filter (\<lambda>fk. fst (snd fk) \<noteq> T) (t_fkeys tb)\<rparr>"

fun exec_ddl :: "ddl \<Rightarrow> db \<Rightarrow> db_error + db" where
  "exec_ddl (DropIfExistsCascade T) d =
     Inr (\<lambda>n. if n = T then None else map_option (drop_fkeys_to T) (d n))"
| "exec_ddl (CreateIfNotExists T tb) d =
     (if d T \<noteq> None then Inr d
      else
        (case find (\<lambda>fk. case (d(T \<mapsto> tb)) (fst (snd fk)) of
                           None \<Rightarrow> True
                         | Some rtb \<Rightarrow> snd (snd fk) \<notin> set (t_cols rtb))
                   (t_fkeys tb) of
           Some fk \<Rightarrow> Inl (UndefinedTable (fst (snd fk)))
         | None \<Rightarrow> Inr (d(T \<mapsto> tb))))"

text \<open>\<^verbatim>\<open>cur_p.execute(script)\<close>: the statements run in order; the first error ends the call.\<close>

fun exec_script :: "ddl list \<Rightarrow> db \<Rightarrow> db_error + db" where
  "exec_script [] d = Inr d"
| "exec_script (st # sts) d =
     (case exec_ddl st d of Inl e \<Rightarrow> Inl e | Inr d' \<Rightarrow> exec_script sts d')"

text \<open>The order of the drops, and the references among the created tables.\<close>

fun dropped :: "ddl list \<Rightarrow> ident list" where
  "dropped [] = []"
| "dropped (DropIfExistsCascade T # sts) = T # dropped sts"
| "dropped (CreateIfNotExists T tb # sts) = dropped sts"

fun created :: "ddl list \<Rightarrow> (ident \<times> table) list" where
  "created [] = []"
| "created (DropIfExistsCascade T # sts) = created sts"
| "created (CreateIfNotExists T tb # sts) = (T, tb) # created sts"

definition fk_edges :: "ddl list \<Rightarrow> (ident \<times> ident) list" where
  "fk_edges script =
     concat (map (\<lambda>(T, tb). map (\<lambda>fk. (T, fst (snd fk))) (t_fkeys tb)) (created script))"

text \<open>\<open>a\<close> stands before the first \<open>b\<close> in the list.\<close>

definition stands_before :: "'a list \<Rightarrow> 'a \<Rightarrow> 'a \<Rightarrow> bool" where
  "stands_before xs a b = (b \<in> set xs \<and> a \<in> set (takeWhile (\<lambda>x. x \<noteq> b) xs))"

text \<open>Every dependent table is dropped before each table it references.\<close>

definition drops_respect_fkeys :: "ddl list \<Rightarrow> bool" where
  "drops_respect_fkeys script =
     list_all (\<lambda>(child, parent). stands_before (dropped script) child parent) (fk_edges script)"

section \<open>The entry point\<close>

text \<open>
  The surroundings of a run: the secrets file, the SQLite files that can be opened and the
  PostgreSQL databases that can be reached, each with its committed content.
\<close>

record env =
  secrets :: "string \<rightharpoonup> string"
  sqlite_files :: "string \<rightharpoonup> source_db"
  pg_servers :: "string \<rightharpoonup> db"

text \<open>
  Two names of the module namespace are read by the script without being bound by it
  first: \<^verbatim>\<open>DATABASE_URL\<close>, in the default argument of \<^verbatim>\<open>connect_databases\<close>, which
  Python evaluates when the \<^verbatim>\<open>def\<close> statement runs (the name is assigned only inside the
  main block), and \<^verbatim>\<open>psycopg2\<close>, since \<^verbatim>\<open>from psycopg2.extras import execute_values\<close>
  binds \<^verbatim>\<open>execute_values\<close> alone. The namespace the module starts with says whether they
  are bound.
\<close>

record py_globals =
  g_DATABASE_URL :: "string option"
  g_psycopg2 :: bool

definition get_db_url :: "(string \<rightharpoonup> string) \<Rightarrow> py_error + string" where
  "get_db_url secr =
     (case secr ''POSTGRES_USERNAME'' of
        None \<Rightarrow> Inl (KeyError ''POSTGRES_USERNAME'')
      | Some username \<Rightarrow>
     (case secr ''POSTGRES_PASSWORD'' of
        None \<Rightarrow> Inl (KeyError ''POSTGRES_PASSWORD'')
      | Some password \<Rightarrow>
     (case secr ''POSTGRES_SERVER'' of
        None \<Rightarrow> Inl (KeyError ''POSTGRES_SERVER'')
      | Some server \<Rightarrow>
     (case secr ''POSTGRES_DATABASE'' of
        None \<Rightarrow> Inl (KeyError ''POSTGRES_DATABASE'')
      | Some database \<Rightarrow>
          Inr (''postgresql://'' @ username @ '':'' @ password @ ''@'' @ server @ ''/'' @ database)))))"

text \<open>
  \<^verbatim>\<open>connect_databases\<close>: any exception is printed and \<^verbatim>\<open>None\<close> is returned. When the
  second connection fails the first one stays open; nothing closes it.
\<close>

definition connect_databases ::
  "bool \<Rightarrow> env \<Rightarrow> string \<Rightarrow> string \<Rightarrow> (source_db \<times> pg_conn) option \<times> event list" where
  "connect_databases psycopg2_bound e sqlite_db postgres_db =
     (case sqlite_files e sqlite_db of
        None \<Rightarrow> (None, [Print (Exc OperationalError)])
      | Some conn_s \<Rightarrow>
          if \<not> psycopg2_bound then
            (None, [Acquire SrcConn, Print (Exc (NameError ''psycopg2''))])
          else
            (case pg_servers e postgres_db of
               None \<Rightarrow> (None, [Acquire SrcConn, Print (Exc OperationalError)])
             | Some d \<Rightarrow>
                 (Some (conn_s, \<lparr>committed = d, working = d\<rparr>), [Acquire SrcConn, Acquire TgtConn])))"

text \<open>
  The attributes of a psycopg2 cursor. \<^verbatim>\<open>commit\<close> and \<^verbatim>\<open>rollback\<close> belong to the
  connection, not to the cursor.
\<close>

definition cursor_attributes :: "string list" where
  "cursor_attributes =
     [''description'', ''close'', ''closed'', ''connection'', ''name'', ''execute'',
      ''executemany'', ''callproc'', ''mogrify'', ''fetchone'', ''fetchmany'', ''fetchall'',
      ''scroll'', ''arraysize'', ''itersize'', ''rowcount'', ''rownumber'', ''lastrowid'',
      ''query'', ''statusmessage'', ''nextset'', ''copy_from'', ''copy_to'', ''copy_expert'']"

text \<open>
  Lines 132 to 140 of the main block: connect, close the source connection, run the schema
  script, \<^verbatim>\<open>cur_p.commit()\<close>, close. The tuple assignment raises when
  \<^verbatim>\<open>connect_databases\<close> returned \<^verbatim>\<open>None\<close>. An exception here is not caught: the process
  ends, and what the connection had not committed is lost.
\<close>

definition create_tables ::
  "bool \<Rightarrow> string \<Rightarrow> env \<Rightarrow> py_error option \<times> env \<times> event list" where
  "create_tables psycopg2_bound url e =
     (case connect_databases psycopg2_bound e ''project2normalized.db'' url of
        (None, evs) \<Rightarrow>
          (Some (TypeError ''cannot unpack non-iterable NoneType object''), e,
           Print (Msg ''Creating tables...'') # evs)
      | (Some (conn_s, conn_p), evs) \<Rightarrow>
          (case exec_script STAGING_CREATE_SQL (working conn_p) of
             Inl err \<Rightarrow>
               (Some (DatabaseError err), e,
                Print (Msg ''Creating tables...'') # evs @
                [Release SrcConn, Acquire TgtCursor, ExecScript])
           | Inr d \<Rightarrow>
               if ''commit'' \<notin> set cursor_attributes then
                 (Some (AttributeError ''commit''), e,
                  Print (Msg ''Creating tables...'') # evs @
                  [Release SrcConn, Acquire TgtCursor, ExecScript])
               else
                 (None, e\<lparr>pg_servers := (pg_servers e)(url \<mapsto> d)\<rparr>,
                  Print (Msg ''Creating tables...'') # evs @
                  [Release SrcConn, Acquire TgtCursor, ExecScript, Commit,
                   Release TgtCursor, Release TgtConn,
                   Print (Msg ''Tables created successfully'')])))"

text \<open>
  Lines 143 to 147: connect again, transfer with the default batch size, close both
  connections. Closing the target connection leaves the committed content on the server.
\<close>

definition load_staging_data ::
  "bool \<Rightarrow> string \<Rightarrow> env \<Rightarrow> py_error option \<times> env \<times> event list" where
  "load_staging_data psycopg2_bound url e =
     (case connect_databases psycopg2_bound e ''project2normalized.db'' url of
        (None, evs) \<Rightarrow>
          (Some (TypeError ''cannot unpack non-iterable NoneType object''), e,
           Print (Msg ''Loading data from sqlite3 to postgres...'') # evs)
      | (Some (conn_s, conn_p), evs) \<Rightarrow>
          (case load_sqlite_to_postgres conn_s conn_p 25000 of
             (caught, pg, evs') \<Rightarrow>
               (None, e\<lparr>pg_servers := (pg_servers e)(url \<mapsto> committed pg)\<rparr>,
                Print (Msg ''Loading data from sqlite3 to postgres...'') # evs @ evs' @
                [Release SrcConn, Release TgtConn])))"

text \<open>
  The main block. \<open>default_url\<close> is the default of \<^verbatim>\<open>postgres_db\<close>, fixed when
  \<^verbatim>\<open>connect_databases\<close> was defined; the value that line 130 assigns to
  \<^verbatim>\<open>DATABASE_URL\<close> is not passed to any call.
\<close>

definition main_block ::
  "bool \<Rightarrow> string \<Rightarrow> env \<Rightarrow> py_error option \<times> env \<times> event list" where
  "main_block psycopg2_bound default_url e =
     (case get_db_url (secrets e) of
        Inl err \<Rightarrow> (Some err, e, [])
      | Inr DATABASE_URL \<Rightarrow>
          (case create_tables psycopg2_bound default_url e of
             (Some err, e1, evs) \<Rightarrow> (Some err, e1, evs)
           | (None, e1, evs) \<Rightarrow>
               (case load_staging_data psycopg2_bound default_url e1 of
                  (res, e2, evs') \<Rightarrow> (res, e2, evs @ evs'))))"

text \<open>
  The module from its first line, run as \<^verbatim>\<open>__main__\<close>: the imports are taken to
  succeed, the \<^verbatim>\<open>def\<close> of \<^verbatim>\<open>connect_databases\<close> (line 70) evaluates
  \<^verbatim>\<open>DATABASE_URL\<close>, and the main block follows.
\<close>

definition script :: "py_globals \<Rightarrow> env \<Rightarrow> py_error option \<times> env \<times> event list" where
  "script g e =
     (case g_DATABASE_URL g of
        None \<Rightarrow> (Some (NameError ''DATABASE_URL''), e, [])
      | Some default_url \<Rightarrow> main_block (g_psycopg2 g) default_url e)"

text \<open>\<^verbatim>\<open>python populate_db.py\<close>: the interpreter starts the module with neither name bound.\<close>

definition entry_point :: "env \<Rightarrow> py_error option \<times> env \<times> event list" where
  "entry_point e = script \<lparr>g_DATABASE_URL = None, g_psycopg2 = False\<rparr> e"

section \<open>Views of a run\<close>

text \<open>The connections and cursors opened and not closed by a sequence of events.\<close>

fun held_after :: "resource list \<Rightarrow> event list \<Rightarrow> resource list" where
  "held_after acc [] = acc"
| "held_after acc (Acquire r # evs) = held_after (r # acc) evs"
| "held_after acc (Release r # evs) = held_after (remove1 r acc) evs"
| "held_after acc (ev # evs) = held_after acc evs"

definition held :: "event list \<Rightarrow> resource list" where
  "held evs = held_after [] evs"

text \<open>The calls made on the target connection.\<close>

fun is_call :: "event \<Rightarrow> bool" where
  "is_call (Insert T cols rows) = True"
| "is_call Commit = True"
| "is_call Rollback = True"
| "is_call ExecScript = True"
| "is_call ev = False"

definition calls :: "event list \<Rightarrow> event list" where
  "calls evs = filter is_call evs"

fun is_insert_into :: "ident \<Rightarrow> event \<Rightarrow> bool" where
  "is_insert_into T (Insert T' cols rows) = (T' = T)"
| "is_insert_into T ev = False"

text \<open>
  A page is what one pass of the loop handles: the table, its columns and the fetched
  rows. \<open>store_page\<close> is the insert of a page followed by its commit; \<open>all_pages\<close> lists the
  pages of a source in the order of the transfer.
\<close>

type_synonym page = "ident \<times> ident list \<times> row list"

definition store_page :: "page \<Rightarrow> pg_conn \<Rightarrow> db_error + pg_conn" where
  "store_page pgs pg =
     (case pgs of (T, cols, rows) \<Rightarrow>
        (case insert_stmt T cols rows (working pg) of
           Inl e \<Rightarrow> Inl e
         | Inr d \<Rightarrow> Inr (commit (pg\<lparr>working := d\<rparr>))))"

fun store_pages :: "page list \<Rightarrow> pg_conn \<Rightarrow> db_error + pg_conn" where
  "store_pages [] pg = Inr pg"
| "store_pages (p # ps) pg =
     (case store_page p pg of Inl e \<Rightarrow> Inl e | Inr pg' \<Rightarrow> store_pages ps pg')"

definition pages_of :: "nat \<Rightarrow> source_table \<Rightarrow> page list" where
  "pages_of batch_size st =
     (case st of (T, cols, rows) \<Rightarrow> map (\<lambda>p. (T, cols, p)) (paginate batch_size rows))"

definition all_pages :: "nat \<Rightarrow> source_db \<Rightarrow> page list" where
  "all_pages batch_size src = concat (map (pages_of batch_size) src)"

text \<open>The calls of a transfer in which every page is stored.\<close>

definition page_calls :: "page \<Rightarrow> event list" where
  "page_calls pgs = (case pgs of (T, cols, rows) \<Rightarrow> [Insert T cols rows, Commit])"

text \<open>
  In a sequence of calls, every insert carries at least one row and every commit comes
  directly after an insert.
\<close>

fun commits_follow_inserts :: "event list \<Rightarrow> bool" where
  "commits_follow_inserts [] = True"
| "commits_follow_inserts (Insert T cols rows # Commit # evs) =
     (rows \<noteq> [] \<and> commits_follow_inserts evs)"
| "commits_follow_inserts (Insert T cols rows # evs) = (rows \<noteq> [] \<and> commits_follow_inserts evs)"
| "commits_follow_inserts (Commit # evs) = False"
| "commits_follow_inserts (ev # evs) = commits_follow_inserts evs"

text \<open>The rows of a table of the store; none when the table does not exist.\<close>

definition rows_of :: "db \<Rightarrow> ident \<Rightarrow> row list" where
  "rows_of d T = (case d T of None \<Rightarrow> [] | Some tb \<Rightarrow> t_rows tb)"


text \<open>The connections and cursors that a sequence of events opens and closes, in order.\<close>

fun is_resource_event :: "event \<Rightarrow> bool" where
  "is_resource_event (Acquire r) = True"
| "is_resource_event (Release r) = True"
| "is_resource_event ev = False"

definition resource_events :: "event list \<Rightarrow> event list" where
  "resource_events evs = filter is_resource_event evs"


section \<open>Sample stores\<close>

definition region_table :: table where
  "region_table =
     new_table [''RegionID'', ''Region''] [SERIAL, TEXT] [''RegionID'', ''Region'']
               [[''RegionID''], [''Region'']] []"

definition order_table :: table where
  "order_table =
     new_table [''OrderID'', ''QuantityOrdered''] [SERIAL, INTEGER] [''OrderID'', ''QuantityOrdered'']
               [[''OrderID'']] []"

definition sample_target :: pg_conn where
  "sample_target =
     \<lparr>committed = [''Region'' \<mapsto> region_table, ''OrderDetail'' \<mapsto> order_table],
      working = [''Region'' \<mapsto> region_table, ''OrderDetail'' \<mapsto> order_table]\<rparr>"

definition five_orders :: source_db where
  "five_orders =
     [(''OrderDetail'', [''OrderID'', ''QuantityOrdered''],
       [[IntV 1, IntV 10], [IntV 2, IntV 20], [IntV 3, IntV 30], [IntV 4, IntV 40],
        [IntV 5, IntV 50]])]"

definition regions_with_null :: source_db where
  "regions_with_null =
     [(''Region'', [''RegionID'', ''Region''],
       [[IntV 1, Null], [IntV 2, TextV ''Asia''], [IntV 3, TextV ''Europe'']])]"

definition regions_second_null :: source_db where
  "regions_second_null =
     [(''Region'', [''RegionID'', ''Region''],
       [[IntV 1, TextV ''Americas''], [IntV 2, Null], [IntV 3, TextV ''Europe'']])]"

definition empty_then_orders :: source_db where
  "empty_then_orders = (''Region'', [''RegionID'', ''Region''], []) # five_orders"

definition sample_url :: string where
  "sample_url = ''postgresql://user:pw@host/shop''"

definition sample_env :: env where
  "sample_env =
     \<lparr>secrets = [''POSTGRES_USERNAME'' \<mapsto> ''user'', ''POSTGRES_PASSWORD'' \<mapsto> ''pw'',
                 ''POSTGRES_SERVER'' \<mapsto> ''host'', ''POSTGRES_DATABASE'' \<mapsto> ''shop''],
      sqlite_files = [''project2normalized.db'' \<mapsto> five_orders],
      pg_servers = [sample_url \<mapsto> Map.empty]\<rparr>"

definition env_without_source :: env where
  "env_without_source = sample_env\<lparr>sqlite_files := Map.empty\<rparr>"

definition target_with_americas :: pg_conn where
  "target_with_americas =
     \<lparr>committed = [''Region'' \<mapsto> region_table\<lparr>t_rows := [[IntV 1, TextV ''Americas'']]\<rparr>],
      working = [''Region'' \<mapsto> region_table\<lparr>t_rows := [[IntV 1, TextV ''Americas'']]\<rparr>]\<rparr>"

text \<open>The six tables as the schema script leaves them on an empty database.\<close>

definition staging_store :: db where
  "staging_store =
     (case exec_script STAGING_CREATE_SQL Map.empty of Inr d \<Rightarrow> d | Inl e \<Rightarrow> Map.empty)"

definition staging_target :: pg_conn where
  "staging_target = \<lparr>committed = staging_store, working = staging_store\<rparr>"

text \<open>A product whose price, 1234.56789, is the double \<open>5429687001335527 \<cdot> 2\<^sup>-\<^sup>4\<^sup>2\<close>.\<close>

definition priced_products :: source_db where
  "priced_products =
     [(''ProductCategory'',
       [''ProductCategoryID'', ''ProductCategory'', ''ProductCategoryDescription''],
       [[IntV 1, TextV ''Computers'', TextV ''Desktops and laptops'']]),
      (''Product'',
       [''ProductID'', ''ProductName'', ''ProductUnitPrice'', ''ProductCategoryID''],
       [[IntV 1, TextV ''Laptop'', RealV 5429687001335527 (- 42), IntV 1]])]"

definition three_regions :: source_db where
  "three_regions =
     [(''Region'', [''RegionID'', ''Region''],
       [[IntV 1, TextV ''Americas''], [IntV 2, TextV ''Asia''], [IntV 3, TextV ''Europe'']])]"

definition env_without_target :: env where
  "env_without_target = sample_env\<lparr>pg_servers := Map.empty\<rparr>"




text \<open>A source with one row in each table of the schema script, parents first.\<close>

definition small_shop :: source_db where
  "small_shop =
     [(''Region'', [''RegionID'', ''Region''], [[IntV 1, TextV ''Americas'']]),
      (''Country'', [''CountryID'', ''Country'', ''RegionID''],
       [[IntV 1, TextV ''Canada'', IntV 1]]),
      (''Customer'',
       [''CustomerID'', ''FirstName'', ''LastName'', ''Address'', ''City'', ''CountryID''],
       [[IntV 1, TextV ''Ada'', TextV ''Lovelace'', TextV ''1 Main St'', TextV ''Toronto'',
         IntV 1]]),
      (''ProductCategory'',
       [''ProductCategoryID'', ''ProductCategory'', ''ProductCategoryDescription''],
       [[IntV 1, TextV ''Computers'', TextV ''Desktops and laptops'']]),
      (''Product'',
       [''ProductID'', ''ProductName'', ''ProductUnitPrice'', ''ProductCategoryID''],
       [[IntV 1, TextV ''Laptop'', RealV 5429687001335527 (- 42), IntV 1]]),
      (''OrderDetail'',
       [''OrderID'', ''CustomerID'', ''ProductID'', ''OrderDate'', ''QuantityOrdered''],
       [[IntV 1, IntV 1, IntV 1, TextV ''2012-01-22 00:00:00'', IntV 3]])]"

section \<open>Pages\<close>

lemma paginate_single: "xs \<noteq> [] \<Longrightarrow> length xs \<le> n \<Longrightarrow> paginate n xs = [xs]"
  by (subst paginate.simps, subst paginate.simps) (cases xs, auto)

lemma concat_paginate: "0 < n \<Longrightarrow> concat (paginate n xs) = xs"
proof (induction n xs rule: paginate.induct)
  case (1 n xs)
  then show ?case by (subst paginate.simps) auto
qed

lemma paginate_sizes: "p \<in> set (paginate n xs) \<Longrightarrow> p \<noteq> [] \<and> length p \<le> n"
proof (induction n xs arbitrary: p rule: paginate.induct)
  case (1 n xs)
  show ?case
  proof (cases "n = 0 \<or> xs = []")
    case True
    with "1.prems" show ?thesis by (subst (asm) paginate.simps) simp
  next
    case False
    with "1.prems" have "p = take n xs \<or> p \<in> set (paginate n (drop n xs))"
      by (subst (asm) paginate.simps) auto
    then show ?thesis
    proof
      assume "p = take n xs"
      with False show ?thesis by auto
    next
      assume "p \<in> set (paginate n (drop n xs))"
      with "1.IH" False show ?thesis by blast
    qed
  qed
qed

lemma length_paginate: "0 < n \<Longrightarrow> length (paginate n xs) = (length xs + n - 1) div n"
proof (induction n xs rule: paginate.induct)
  case (1 n xs)
  show ?case
  proof (cases "xs = []")
    case True
    with "1.prems" show ?thesis by (subst paginate.simps) simp
  next
    case False
    have step: "length (paginate n xs) = Suc (length (paginate n (drop n xs)))"
      using False "1.prems" by (subst paginate.simps) simp
    have ih: "length (paginate n (drop n xs)) = (length xs - n + n - 1) div n"
      using "1.IH" False "1.prems" by simp
    show ?thesis
    proof (cases "length xs \<le> n")
      case True
      from False obtain m where m: "length xs = Suc m" by (cases xs) auto
      with True have "(length xs + n - 1) div n = 1"
        by (intro div_nat_eqI) simp_all
      with True False show ?thesis by (simp add: paginate_single)
    next
      case gt: False
      define m where "m = length xs - n + n - 1"
      from gt "1.prems" have "length xs + n - 1 = m + n" unfolding m_def by arith
      then have "(length xs + n - 1) div n = Suc (m div n)"
        using "1.prems" by (simp only: div_add_self2) 
      moreover have "length (paginate n xs) = Suc (m div n)"
        using step ih unfolding m_def by (simp only:)
      ultimately show ?thesis by (simp only:)
    qed
  qed
qed

section \<open>Stored rows\<close>

lemma ins_row_fields [simp]:
  "t_cols (ins_row tb r) = t_cols tb"
  "t_types (ins_row tb r) = t_types tb"
  "t_seqs (ins_row tb r) = t_seqs tb"
  "t_notnull (ins_row tb r) = t_notnull tb"
  "t_unique (ins_row tb r) = t_unique tb"
  "t_fkeys (ins_row tb r) = t_fkeys tb"
  by (simp_all add: ins_row_def)

lemma foldl_ins_row_fields [simp]:
  "t_cols (foldl ins_row tb rs) = t_cols tb"
  "t_types (foldl ins_row tb rs) = t_types tb"
  "t_seqs (foldl ins_row tb rs) = t_seqs tb"
  "t_notnull (foldl ins_row tb rs) = t_notnull tb"
  "t_unique (foldl ins_row tb rs) = t_unique tb"
  "t_fkeys (foldl ins_row tb rs) = t_fkeys tb"
  by (induction rs arbitrary: tb) simp_all

lemma clash_cong:
  "t_cols tb' = t_cols tb \<Longrightarrow> t_unique tb' = t_unique tb \<Longrightarrow> clash tb' r r' = clash tb r r'"
  by (simp add: clash_def)

lemma clash_foldl [simp]: "clash (foldl ins_row tb rs) r r' = clash tb r r'"
  by (rule clash_cong) simp_all

lemma conflicts_iff: "conflicts tb r \<longleftrightarrow> (\<exists>r' \<in> set (t_rows tb). clash tb r r')"
  by (simp add: conflicts_def list_ex_iff)

lemma ins_row_rows:
  "t_rows (ins_row tb r) = (if conflicts tb r then t_rows tb else t_rows tb @ [r])"
  by (simp add: ins_row_def)

lemma foldl_ins_row_rows:
  "\<exists>added. t_rows (foldl ins_row tb rs) = t_rows tb @ added \<and> set added \<subseteq> set rs"
proof (induction rs rule: rev_induct)
  case Nil
  then show ?case by simp
next
  case (snoc r rs)
  then obtain added where a: "t_rows (foldl ins_row tb rs) = t_rows tb @ added" "set added \<subseteq> set rs"
    by blast
  show ?case
  proof (cases "conflicts (foldl ins_row tb rs) r")
    case True
    with a show ?thesis by (auto simp: ins_row_rows)
  next
    case False
    with a have "t_rows (foldl ins_row tb (rs @ [r])) = t_rows tb @ (added @ [r])"
      by (simp add: ins_row_rows)
    moreover have "set (added @ [r]) \<subseteq> set (rs @ [r])" using a by auto
    ultimately show ?thesis by blast
  qed
qed

lemma foldl_ins_row_subset:
  "set (t_rows (foldl ins_row tb rs)) \<subseteq> set (t_rows tb) \<union> set rs"
  using foldl_ins_row_rows [of tb rs] by auto

lemma foldl_ins_row_keeps:
  "r \<in> set (t_rows tb) \<Longrightarrow> r \<in> set (t_rows (foldl ins_row tb rs))"
  using foldl_ins_row_rows [of tb rs] by auto

lemma length_foldl_ins_row: "length (t_rows tb) \<le> length (t_rows (foldl ins_row tb rs))"
  using foldl_ins_row_rows [of tb rs] by auto

text \<open>A row that meets no holder of its key, in the table or earlier in the list, is stored.\<close>

lemma foldl_ins_row_stores:
  assumes i: "i < length rs"
      and old: "\<forall>r' \<in> set (t_rows tb). \<not> clash tb (rs ! i) r'"
      and earlier: "\<forall>j < i. \<not> clash tb (rs ! i) (rs ! j)"
  shows "rs ! i \<in> set (t_rows (foldl ins_row tb rs))"
proof -
  let ?mid = "foldl ins_row tb (take i rs)"
  have split: "rs = take i rs @ rs ! i # drop (Suc i) rs"
    using i by (rule id_take_nth_drop)
  have "set (t_rows ?mid) \<subseteq> set (t_rows tb) \<union> set (take i rs)"
    by (rule foldl_ins_row_subset)
  moreover have "\<forall>r' \<in> set (take i rs). \<not> clash tb (rs ! i) r'"
    using earlier i by (auto simp: in_set_conv_nth)
  ultimately have "\<not> conflicts ?mid (rs ! i)"
    using old by (auto simp: conflicts_iff)
  then have "rs ! i \<in> set (t_rows (ins_row ?mid (rs ! i)))"
    by (simp add: ins_row_rows)
  then have "rs ! i \<in> set (t_rows (foldl ins_row (ins_row ?mid (rs ! i)) (drop (Suc i) rs)))"
    by (rule foldl_ins_row_keeps)
  moreover have "foldl ins_row tb rs = foldl ins_row (ins_row ?mid (rs ! i)) (drop (Suc i) rs)"
    by (subst split) simp
  ultimately show ?thesis by simp
qed

text \<open>A row whose key is held by a row of the table is not among the rows added.\<close>

lemma foldl_ins_row_skips:
  assumes "t_rows (foldl ins_row tb rs) = t_rows tb @ added"
      and "r' \<in> set (t_rows tb)" and "clash tb r r'"
  shows "r \<notin> set added"
  using assms(1)
proof (induction rs arbitrary: added rule: rev_induct)
  case Nil
  then show ?case by simp
next
  case (snoc x rs)
  obtain added0 where a0: "t_rows (foldl ins_row tb rs) = t_rows tb @ added0"
    using foldl_ins_row_rows by blast
  then have ih: "r \<notin> set added0" by (rule snoc.IH)
  show ?case
  proof (cases "conflicts (foldl ins_row tb rs) x")
    case True
    with snoc.prems a0 have "added = added0" by (simp add: ins_row_rows)
    with ih show ?thesis by simp
  next
    case False
    with snoc.prems a0 have added: "added = added0 @ [x]" by (simp add: ins_row_rows)
    have "r' \<in> set (t_rows (foldl ins_row tb rs))" using assms(2) by (rule foldl_ins_row_keeps)
    with False have "\<not> clash tb x r'" by (auto simp: conflicts_iff)
    with assms(3) have "x \<noteq> r" by auto
    with ih added show ?thesis by simp
  qed
qed

lemma check_columns_None:
  "check_columns tcols seen cs = None \<longleftrightarrow>
     set cs \<subseteq> set tcols \<and> distinct cs \<and> set cs \<inter> set seen = {}"
  by (induction cs arbitrary: seen) auto

lemma driver_error_None:
  "driver_error rs = None \<longleftrightarrow>
     (\<forall>r \<in> set rs. \<not> list_ex has_nul r \<and> length r = length (hd rs))"
proof -
  have "driver_error rs = None \<longleftrightarrow>
        find (\<lambda>r. list_ex has_nul r \<or> length r \<noteq> length (hd rs)) rs = None"
    by (simp add: driver_error_def split: option.splits)
  then show ?thesis by (auto simp: find_None_iff)
qed

lemma conversion_errors_Nil:
  "conversion_errors tb cols rs = [] \<longleftrightarrow>
     (\<forall>r \<in> set rs. \<forall>c \<in> set cols. \<exists>v. assign (col_type tb c) (cell cols r c) = Inr v)"
proof -
  have "(case x of Inl e \<Rightarrow> [(w, e)] | Inr v \<Rightarrow> []) = [] \<longleftrightarrow> (\<exists>v. x = Inr v)"
    for x :: "db_error + val" and w :: val
    by (cases x) simp_all
  then show ?thesis by (simp add: conversion_errors_def)
qed

lemma conversion_error_None:
  "conversion_error tb cols rs = None \<longleftrightarrow>
     (\<forall>r \<in> set rs. \<forall>c \<in> set cols. \<exists>v. assign (col_type tb c) (cell cols r c) = Inr v)"
proof -
  have "conversion_error tb cols rs = None \<longleftrightarrow> conversion_errors tb cols rs = []"
    by (auto simp: conversion_error_def Let_def split: option.splits list.splits)
  then show ?thesis by (simp add: conversion_errors_Nil)
qed

lemma cell_map:
  "c \<in> set tcols \<Longrightarrow> cell tcols (map f tcols) c = f c"
proof -
  assume "c \<in> set tcols"
  then have "map_of (zip tcols (map f tcols)) c = Some (f c)"
    by (induction tcols) auto
  then show ?thesis by (simp add: cell_def)
qed

lemma cell_stored_row:
  "c \<in> set (t_cols tb) \<Longrightarrow> cell (t_cols tb) (stored_row tb cols k r) c = stored_cell tb cols k r c"
  by (simp add: stored_row_def cell_map)

lemma length_stored_rows [simp]: "length (stored_rows tb cols rs) = length rs"
  by (simp add: stored_rows_def)

lemma nth_stored_rows:
  "i < length rs \<Longrightarrow> stored_rows tb cols rs ! i = stored_row tb cols i (rs ! i)"
  by (simp add: stored_rows_def nth_enumerate_eq)

lemma insert_stmt_Inr:
  assumes "insert_stmt T cols rs d = Inr d'"
  shows "\<exists>tb. d T = Some tb
            \<and> d' = d(T \<mapsto> after_insert tb cols rs)
            \<and> set cols \<subseteq> set (t_cols tb)
            \<and> conversion_error tb cols rs = None"
proof -
  from assms obtain tb where tb: "d T = Some tb"
    by (auto simp: insert_stmt_def split: option.splits)
  from assms tb have "check_columns (t_cols tb) [] cols = None"
    by (auto simp: insert_stmt_def split: option.splits)
  then have "set cols \<subseteq> set (t_cols tb)"
    by (simp add: check_columns_None)
  moreover from assms tb have "conversion_error tb cols rs = None"
    by (auto simp: insert_stmt_def split: option.splits if_splits)
  moreover from assms tb have "d' = d(T \<mapsto> after_insert tb cols rs)"
    by (auto simp: insert_stmt_def after_insert_def Let_def split: option.splits if_splits prod.splits)
  ultimately show ?thesis using tb by blast
qed

section \<open>The loop as a sequence of stored pages\<close>

lemma commit_simps [simp]:
  "working (commit pg) = working pg" "committed (commit pg) = working pg"
  by (simp_all add: commit_def)

lemma rollback_simps [simp]:
  "working (rollback pg) = committed pg" "committed (rollback pg) = committed pg"
  by (simp_all add: rollback_def)

lemma page_calls_simp [simp]: "page_calls (T, cols, rows) = [Insert T cols rows, Commit]"
  by (simp add: page_calls_def)

lemma execute_values_page:
  "rows \<noteq> [] \<Longrightarrow> length rows \<le> n \<Longrightarrow>
   execute_values T cols rows n pg =
     (case insert_stmt T cols rows (working pg) of
        Inl e \<Rightarrow> (Some e, pg)
      | Inr d \<Rightarrow> (None, pg\<lparr>working := d\<rparr>))"
  by (simp add: execute_values_def paginate_single split: sum.splits)

lemma execute_values_store_page:
  assumes "rows \<noteq> []" "length rows \<le> n"
  shows "execute_values T cols rows n pg = (None, pg1) \<Longrightarrow> store_page (T, cols, rows) pg = Inr (commit pg1)"
    and "execute_values T cols rows n pg = (Some e, pg1) \<Longrightarrow> store_page (T, cols, rows) pg = Inl e \<and> pg1 = pg"
  using assms by (auto simp: execute_values_page store_page_def split: sum.splits)

lemma pages_of_step:
  "0 < n \<Longrightarrow> rows \<noteq> [] \<Longrightarrow>
   pages_of n (T, cols, rows) = (T, cols, take n rows) # pages_of n (T, cols, drop n rows)"
  by (simp add: pages_of_def paginate.simps [of n rows])

lemma pages_of_Nil: "pages_of n (T, cols, []) = []"
  by (simp add: pages_of_def paginate.simps [of n "[]"])

lemma store_pages_append:
  "store_pages (ps @ qs) pg =
     (case store_pages ps pg of Inl e \<Rightarrow> Inl e | Inr pg' \<Rightarrow> store_pages qs pg')"
  by (induction ps arbitrary: pg) (auto split: sum.splits)

lemma fetch_loop_Nil: "fetch_loop n T cols [] k pg = (Inr k, pg, [])"
  by (subst fetch_loop.simps) simp

text \<open>A loop that ends without exception has stored every page of the table.\<close>

lemma fetch_loop_Inr:
  "0 < n \<Longrightarrow> fetch_loop n T cols pending k pg = (Inr m, pg', evs) \<Longrightarrow>
         store_pages (pages_of n (T, cols, pending)) pg = Inr pg'
         \<and> m = k + length pending
         \<and> calls evs = concat (map page_calls (pages_of n (T, cols, pending)))"
proof (induction n T cols pending k pg arbitrary: m pg' evs rule: fetch_loop.induct)
  case (1 n T cols pending k pg)
  from "1.prems" have pos: "0 < n" by simp
  note run = "1.prems"(2)
  show ?case
  proof (cases "pending = []")
    case True
    with run show ?thesis
      by (auto simp: fetch_loop_Nil pages_of_Nil calls_def)
  next
    case False
    let ?rows = "take n pending"
    from False pos have ne: "?rows \<noteq> []" by simp
    have le: "length ?rows \<le> n" by simp
    obtain r1 pg1 where ev: "execute_values T cols ?rows n pg = (r1, pg1)"
      by (cases "execute_values T cols ?rows n pg")
    show ?thesis
    proof (cases r1)
      case (Some e)
      with run ev ne show ?thesis
        by (simp add: fetch_loop.simps [of n T cols pending])
    next
      case None
      obtain res pg3 evs3 where rec:
        "fetch_loop n T cols (drop n pending) (k + length ?rows) (commit pg1) = (res, pg3, evs3)"
        by (cases "fetch_loop n T cols (drop n pending) (k + length ?rows) (commit pg1)")
      from run ev None ne rec
      have res: "res = Inr m" "pg3 = pg'"
        and evs: "evs = [Insert T cols ?rows, Commit, Print (Batch (k + length ?rows))] @ evs3"
        by (simp_all add: fetch_loop.simps [of n T cols pending] Let_def)
      have ih: "store_pages (pages_of n (T, cols, drop n pending)) (commit pg1) = Inr pg'
                \<and> m = k + length ?rows + length (drop n pending)
                \<and> calls evs3 = concat (map page_calls (pages_of n (T, cols, drop n pending)))"
      proof -
        from ev None have ev': "(None, pg1) = execute_values T cols ?rows n pg" by simp
        from rec res have rec':
          "fetch_loop n T cols (drop n pending) (k + length ?rows) (commit pg1) = (Inr m, pg', evs3)"
          by simp
        show ?thesis by (rule "1.IH" [OF refl ne ev' refl refl refl pos rec'])
      qed
      have sp: "store_page (T, cols, ?rows) pg = Inr (commit pg1)"
        using execute_values_store_page(1) [OF ne le] ev None by simp
      have "length ?rows + length (drop n pending) = length pending"
        by (metis append_take_drop_id length_append)
      with ih sp evs False pos show ?thesis
        by (simp add: pages_of_step calls_def)
    qed
  qed
qed

text \<open>
  A loop left by an exception has stored the pages before the failing one and nothing
  else.
\<close>

lemma fetch_loop_Inl:
  "0 < n \<Longrightarrow> fetch_loop n T cols pending k pg = (Inl e, pg', evs) \<Longrightarrow>
         \<exists>done failing rest.
           pages_of n (T, cols, pending) = done @ failing # rest
           \<and> store_pages done pg = Inr pg'
           \<and> store_page failing pg' = Inl e
           \<and> calls evs = concat (map page_calls done) @ [hd (page_calls failing)]"
proof (induction n T cols pending k pg arbitrary: pg' evs rule: fetch_loop.induct)
  case (1 n T cols pending k pg)
  from "1.prems" have pos: "0 < n" by simp
  note run = "1.prems"(2)
  show ?case
  proof (cases "pending = []")
    case True
    with run show ?thesis
      by (simp add: fetch_loop_Nil)
  next
    case False
    let ?rows = "take n pending"
    from False pos have ne: "?rows \<noteq> []" by simp
    have le: "length ?rows \<le> n" by simp
    have pages: "pages_of n (T, cols, pending)
                 = (T, cols, ?rows) # pages_of n (T, cols, drop n pending)"
      using False pos by (rule pages_of_step [rotated])
    obtain r1 pg1 where ev: "execute_values T cols ?rows n pg = (r1, pg1)"
      by (cases "execute_values T cols ?rows n pg")
    show ?thesis
    proof (cases r1)
      case (Some e1)
      with run ev ne have eq: "e1 = e" "pg' = pg1" "evs = [Insert T cols ?rows]"
        by (simp_all add: fetch_loop.simps [of n T cols pending])
      from execute_values_store_page(2) [OF ne le] ev Some eq
      have "store_page (T, cols, ?rows) pg = Inl e" "pg' = pg" by simp_all
      with pages eq have
        "pages_of n (T, cols, pending) = [] @ (T, cols, ?rows) # pages_of n (T, cols, drop n pending)
         \<and> store_pages [] pg = Inr pg'
         \<and> store_page (T, cols, ?rows) pg' = Inl e
         \<and> calls evs = concat (map page_calls []) @ [hd (page_calls (T, cols, ?rows))]"
        by (simp add: calls_def)
      then show ?thesis by blast
    next
      case None
      obtain res pg3 evs3 where rec:
        "fetch_loop n T cols (drop n pending) (k + length ?rows) (commit pg1) = (res, pg3, evs3)"
        by (cases "fetch_loop n T cols (drop n pending) (k + length ?rows) (commit pg1)")
      from run ev None ne rec
      have res: "res = Inl e" "pg3 = pg'"
        and evs: "evs = [Insert T cols ?rows, Commit, Print (Batch (k + length ?rows))] @ evs3"
        by (simp_all add: fetch_loop.simps [of n T cols pending] Let_def)
      have "\<exists>done failing rest.
              pages_of n (T, cols, drop n pending) = done @ failing # rest
              \<and> store_pages done (commit pg1) = Inr pg'
              \<and> store_page failing pg' = Inl e
              \<and> calls evs3 = concat (map page_calls done) @ [hd (page_calls failing)]"
      proof -
        from ev None have ev': "(None, pg1) = execute_values T cols ?rows n pg" by simp
        from rec res have rec':
          "fetch_loop n T cols (drop n pending) (k + length ?rows) (commit pg1) = (Inl e, pg', evs3)"
          by simp
        show ?thesis by (rule "1.IH" [OF refl ne ev' refl refl refl pos rec'])
      qed
      then obtain dn failing rest where ih:
        "pages_of n (T, cols, drop n pending) = dn @ failing # rest"
        "store_pages dn (commit pg1) = Inr pg'"
        "store_page failing pg' = Inl e"
        "calls evs3 = concat (map page_calls dn) @ [hd (page_calls failing)]"
        by blast
      have sp: "store_page (T, cols, ?rows) pg = Inr (commit pg1)"
        using execute_values_store_page(1) [OF ne le] ev None by simp
      from ih sp evs pages have
        "pages_of n (T, cols, pending) = ((T, cols, ?rows) # dn) @ failing # rest
         \<and> store_pages ((T, cols, ?rows) # dn) pg = Inr pg'
         \<and> store_page failing pg' = Inl e
         \<and> calls evs = concat (map page_calls ((T, cols, ?rows) # dn)) @ [hd (page_calls failing)]"
        by (simp add: calls_def)
      then show ?thesis by blast
    qed
  qed
qed

section \<open>The transfer as a sequence of stored pages\<close>

lemma calls_append [simp]: "calls (xs @ ys) = calls xs @ calls ys"
  by (simp add: calls_def)

lemma calls_Cons_Print [simp]: "calls (Print l # xs) = calls xs"
  by (simp add: calls_def)

lemma calls_Nil [simp]: "calls [] = []"
  by (simp add: calls_def)

lemma transfer_table_None:
  assumes "0 < n" and "transfer_table n (T, cols, rows) pg = (None, pg', evs)"
  shows "store_pages (pages_of n (T, cols, rows)) pg = Inr pg'"
    and "calls evs = concat (map page_calls (pages_of n (T, cols, rows)))"
    and "Print (Finished T (length rows)) \<in> set evs"
proof -
  obtain res pg1 evs1 where fl: "fetch_loop n T cols rows 0 pg = (res, pg1, evs1)"
    by (cases "fetch_loop n T cols rows 0 pg")
  with assms(2) obtain m where res: "res = Inr m" and pg1: "pg1 = pg'"
    and evs: "evs = Print (Starting T) # evs1 @ [Print (Finished T m)]"
    by (cases res) (auto simp: transfer_table_def)
  from fetch_loop_Inr [OF assms(1), of T cols rows 0 pg m pg' evs1] fl res pg1
  have *: "store_pages (pages_of n (T, cols, rows)) pg = Inr pg'" "m = length rows"
    "calls evs1 = concat (map page_calls (pages_of n (T, cols, rows)))"
    by simp_all
  from * show "store_pages (pages_of n (T, cols, rows)) pg = Inr pg'" by simp
  from * evs show "calls evs = concat (map page_calls (pages_of n (T, cols, rows)))" by simp
  from * evs show "Print (Finished T (length rows)) \<in> set evs" by simp
qed

lemma transfer_table_Some:
  assumes "0 < n" and "transfer_table n (T, cols, rows) pg = (Some e, pg', evs)"
  shows "\<exists>done failing rest.
           pages_of n (T, cols, rows) = done @ failing # rest
           \<and> store_pages done pg = Inr pg'
           \<and> store_page failing pg' = Inl e
           \<and> calls evs = concat (map page_calls done) @ [hd (page_calls failing)]"
proof -
  obtain res pg1 evs1 where fl: "fetch_loop n T cols rows 0 pg = (res, pg1, evs1)"
    by (cases "fetch_loop n T cols rows 0 pg")
  with assms(2) have res: "res = Inl e" and pg1: "pg1 = pg'"
    and evs: "evs = Print (Starting T) # evs1"
    by (cases res; auto simp: transfer_table_def)+
  from fetch_loop_Inl [OF assms(1), of T cols rows 0 pg e pg' evs1] fl res pg1 evs
  show ?thesis by simp
qed

lemma all_pages_Cons: "all_pages n (st # sts) = pages_of n st @ all_pages n sts"
  by (simp add: all_pages_def)

lemma all_pages_Nil: "all_pages n [] = []"
  by (simp add: all_pages_def)

text \<open>A transfer that ends without exception has stored every page of every table.\<close>

lemma transfer_tables_None:
  "0 < n \<Longrightarrow> transfer_tables n src pg = (None, pg', evs) \<Longrightarrow>
   store_pages (all_pages n src) pg = Inr pg'
   \<and> calls evs = concat (map page_calls (all_pages n src))
   \<and> (\<forall>(T, cols, rows) \<in> set src. Print (Finished T (length rows)) \<in> set evs)"
proof (induction src arbitrary: pg evs)
  case Nil
  then show ?case by (simp add: all_pages_Nil)
next
  case (Cons st sts)
  obtain T cols rows where st: "st = (T, cols, rows)" by (cases st)
  obtain r1 pg1 evs1 where t1: "transfer_table n (T, cols, rows) pg = (r1, pg1, evs1)"
    by (cases "transfer_table n (T, cols, rows) pg")
  obtain r2 pg2 evs2 where t2: "transfer_tables n sts pg1 = (r2, pg2, evs2)"
    by (cases "transfer_tables n sts pg1")
  from Cons.prems(2) st t1 have r1: "r1 = None" by (cases r1) auto
  with Cons.prems(2) st t1 t2 have eq: "r2 = None" "pg2 = pg'" "evs = evs1 @ evs2" by auto
  note a = transfer_table_None [OF Cons.prems(1) t1 [unfolded r1]]
  from Cons.IH [OF Cons.prems(1), of pg1 evs2] t2 eq
  have b: "store_pages (all_pages n sts) pg1 = Inr pg'"
    "calls evs2 = concat (map page_calls (all_pages n sts))"
    "\<forall>(T, cols, rows) \<in> set sts. Print (Finished T (length rows)) \<in> set evs2"
    by simp_all
  have "store_pages (all_pages n (st # sts)) pg = Inr pg'"
    using a(1) b(1) st by (simp add: all_pages_Cons store_pages_append)
  moreover have "calls evs = concat (map page_calls (all_pages n (st # sts)))"
    using a(2) b(2) st eq by (simp add: all_pages_Cons)
  moreover have "\<forall>(T, cols, rows) \<in> set (st # sts). Print (Finished T (length rows)) \<in> set evs"
    using a(3) b(3) st eq by auto
  ultimately show ?case by blast
qed

text \<open>
  A transfer left by an exception has stored the pages before the failing one, of this
  table and of the tables before it, and nothing else.
\<close>

lemma transfer_tables_Some:
  "0 < n \<Longrightarrow> transfer_tables n src pg = (Some e, pg', evs) \<Longrightarrow>
   \<exists>done failing rest.
     all_pages n src = done @ failing # rest
     \<and> store_pages done pg = Inr pg'
     \<and> store_page failing pg' = Inl e
     \<and> calls evs = concat (map page_calls done) @ [hd (page_calls failing)]"
proof (induction src arbitrary: pg evs)
  case Nil
  then show ?case by simp
next
  case (Cons st sts)
  obtain T cols rows where st: "st = (T, cols, rows)" by (cases st)
  obtain r1 pg1 evs1 where t1: "transfer_table n (T, cols, rows) pg = (r1, pg1, evs1)"
    by (cases "transfer_table n (T, cols, rows) pg")
  show ?case
  proof (cases r1)
    case (Some e1)
    with Cons.prems(2) st t1 have eq: "e1 = e" "pg1 = pg'" "evs1 = evs" by auto
    from transfer_table_Some [OF Cons.prems(1), of T cols rows pg e pg' evs] t1 Some eq
    obtain dn failing rest where
      "pages_of n (T, cols, rows) = dn @ failing # rest" "store_pages dn pg = Inr pg'"
      "store_page failing pg' = Inl e"
      "calls evs = concat (map page_calls dn) @ [hd (page_calls failing)]"
      by auto
    then have "all_pages n (st # sts) = dn @ failing # (rest @ all_pages n sts)
               \<and> store_pages dn pg = Inr pg' \<and> store_page failing pg' = Inl e
               \<and> calls evs = concat (map page_calls dn) @ [hd (page_calls failing)]"
      using st by (simp add: all_pages_Cons)
    then show ?thesis by blast
  next
    case None
    obtain r2 pg2 evs2 where t2: "transfer_tables n sts pg1 = (r2, pg2, evs2)"
      by (cases "transfer_tables n sts pg1")
    with Cons.prems(2) st t1 None have eq: "r2 = Some e" "pg2 = pg'" "evs = evs1 @ evs2" by auto
    note a = transfer_table_None [OF Cons.prems(1) t1 [unfolded None]]
    from Cons.IH [OF Cons.prems(1), of pg1 evs2] t2 eq
    obtain dn failing rest where ih:
      "all_pages n sts = dn @ failing # rest" "store_pages dn pg1 = Inr pg'"
      "store_page failing pg' = Inl e"
      "calls evs2 = concat (map page_calls dn) @ [hd (page_calls failing)]"
      by auto
    have "all_pages n (st # sts) = (pages_of n (T, cols, rows) @ dn) @ failing # rest
          \<and> store_pages (pages_of n (T, cols, rows) @ dn) pg = Inr pg'
          \<and> store_page failing pg' = Inl e
          \<and> calls evs = concat (map page_calls (pages_of n (T, cols, rows) @ dn))
                        @ [hd (page_calls failing)]"
      using a(1,2) ih st eq by (simp add: all_pages_Cons store_pages_append)
    then show ?thesis by blast
  qed
qed

lemma load_None:
  assumes "0 < n" and "load_sqlite_to_postgres src pg n = (None, pg', evs)"
  shows "store_pages (all_pages n src) pg = Inr pg'"
    and "calls evs = concat (map page_calls (all_pages n src))"
    and "\<forall>(T, cols, rows) \<in> set src. Print (Finished T (length rows)) \<in> set evs"
proof -
  obtain r1 pg1 evs1 where t: "transfer_tables n src pg = (r1, pg1, evs1)"
    by (cases "transfer_tables n src pg")
  with assms(2) have eq: "r1 = None" "pg1 = pg'"
    "evs = [Acquire SrcCursor, Acquire TgtCursor] @ evs1 @
           [Release SrcCursor, Release TgtCursor, Print TotalTime]"
    by (cases r1; auto simp: load_sqlite_to_postgres_def)+
  note a = transfer_tables_None [OF assms(1), of src pg pg' evs1]
  from a t eq show "store_pages (all_pages n src) pg = Inr pg'" by simp
  from a t eq show "calls evs = concat (map page_calls (all_pages n src))"
    by (simp add: calls_def)
  from a t eq show "\<forall>(T, cols, rows) \<in> set src. Print (Finished T (length rows)) \<in> set evs"
    by auto
qed

lemma load_Some:
  assumes "0 < n" and "load_sqlite_to_postgres src pg n = (Some e, pg', evs)"
  shows "\<exists>done failing rest pgk.
           all_pages n src = done @ failing # rest
           \<and> store_pages done pg = Inr pgk
           \<and> store_page failing pgk = Inl e
           \<and> pg' = rollback pgk
           \<and> calls evs = concat (map page_calls done) @ [hd (page_calls failing), Rollback]"
proof -
  obtain r1 pg1 evs1 where t: "transfer_tables n src pg = (r1, pg1, evs1)"
    by (cases "transfer_tables n src pg")
  with assms(2) have eq: "r1 = Some e" "pg' = rollback pg1"
    "evs = [Acquire SrcCursor, Acquire TgtCursor] @ evs1 @ [Print (ErrorLine e), Rollback] @
           [Release SrcCursor, Release TgtCursor, Print TotalTime]"
    by (cases r1; auto simp: load_sqlite_to_postgres_def)+
  from transfer_tables_Some [OF assms(1), of src pg e pg1 evs1] t eq
  obtain dn failing rest where
    "all_pages n src = dn @ failing # rest" "store_pages dn pg = Inr pg1"
    "store_page failing pg1 = Inl e"
    "calls evs1 = concat (map page_calls dn) @ [hd (page_calls failing)]"
    by auto
  with eq have
    "all_pages n src = dn @ failing # rest \<and> store_pages dn pg = Inr pg1
     \<and> store_page failing pg1 = Inl e \<and> pg' = rollback pg1
     \<and> calls evs = concat (map page_calls dn) @ [hd (page_calls failing), Rollback]"
    by (simp add: calls_def)
  then show ?thesis by blast
qed

section \<open>Counting pages and calls\<close>

lemma pages_of_sizes:
  "p \<in> set (pages_of n st) \<Longrightarrow>
   fst p = fst st \<and> fst (snd p) = fst (snd st) \<and> snd (snd p) \<noteq> [] \<and> length (snd (snd p)) \<le> n"
  by (cases st) (auto simp: pages_of_def dest: paginate_sizes)

lemma all_pages_sizes:
  "p \<in> set (all_pages n src) \<Longrightarrow> snd (snd p) \<noteq> [] \<and> length (snd (snd p)) \<le> n"
  by (auto simp: all_pages_def dest: pages_of_sizes)

lemma length_pages_of: "0 < n \<Longrightarrow> length (pages_of n (T, cols, rows)) = (length rows + n - 1) div n"
  by (simp add: pages_of_def length_paginate)

lemma commits_follow_page_calls:
  "\<forall>p \<in> set ps. snd (snd p) \<noteq> [] \<Longrightarrow>
   commits_follow_inserts (concat (map page_calls ps) @ tail) = commits_follow_inserts tail"
proof (induction ps)
  case Nil
  then show ?case by simp
next
  case (Cons p ps)
  obtain T cols rows where p: "p = (T, cols, rows)" by (cases p)
  with Cons show ?case by simp
qed

lemma insert_in_page_calls:
  "Insert T cols rows \<in> set (concat (map page_calls ps)) \<longleftrightarrow> (T, cols, rows) \<in> set ps"
  by (induction ps) (auto simp: page_calls_def)

lemma filter_insert_calls: "filter (is_insert_into T) (calls evs) = filter (is_insert_into T) evs"
proof -
  have "is_insert_into T ev \<Longrightarrow> is_call ev" for ev by (cases ev) simp_all
  then have "(is_call ev \<and> is_insert_into T ev) = is_insert_into T ev" for ev by blast
  then show ?thesis by (simp add: calls_def)
qed

lemma count_inserts_page_calls:
  "length (filter (is_insert_into T) (concat (map page_calls ps)))
   = length (filter (\<lambda>p. fst p = T) ps)"
  by (induction ps) (auto simp: page_calls_def)

lemma count_pages_other:
  "fst st \<noteq> T \<Longrightarrow> filter (\<lambda>p. fst p = T) (pages_of n st) = []"
  by (auto simp: filter_empty_conv dest: pages_of_sizes)

lemma count_pages_same:
  "fst st = T \<Longrightarrow> filter (\<lambda>p. fst p = T) (pages_of n st) = pages_of n st"
  by (auto simp: filter_id_conv dest: pages_of_sizes)

lemma count_pages_absent:
  "T \<notin> fst ` set src \<Longrightarrow> filter (\<lambda>p. fst p = T) (all_pages n src) = []"
  by (induction src) (auto simp: all_pages_Nil all_pages_Cons count_pages_other)

lemma count_pages_of_table:
  "distinct (map fst src) \<Longrightarrow> (T, cols, rows) \<in> set src \<Longrightarrow>
   filter (\<lambda>p. fst p = T) (all_pages n src) = pages_of n (T, cols, rows)"
proof (induction src)
  case Nil
  then show ?case by simp
next
  case (Cons st src)
  show ?case
  proof (cases "st = (T, cols, rows)")
    case True
    with Cons.prems have "T \<notin> fst ` set src" by auto
    with True show ?thesis
      by (simp add: all_pages_Cons count_pages_absent count_pages_same)
  next
    case False
    with Cons.prems have mem: "(T, cols, rows) \<in> set src" by simp
    from mem have "T \<in> fst ` set src" by force
    with Cons.prems have "fst st \<noteq> T" by auto
    with Cons mem show ?thesis by (simp add: all_pages_Cons count_pages_other)
  qed
qed

section \<open>Batches and failures\<close>

lemma store_page_committed: "store_page p pg = Inr pg' \<Longrightarrow> committed pg' = working pg'"
  by (cases p) (auto simp: store_page_def split: sum.splits)

lemma store_pages_committed:
  "store_pages ps pg = Inr pg' \<Longrightarrow> ps \<noteq> [] \<or> committed pg = working pg \<Longrightarrow>
   committed pg' = working pg'"
proof (induction ps arbitrary: pg)
  case Nil
  then show ?case by simp
next
  case (Cons p ps)
  from Cons.prems(1) obtain pg1 where p: "store_page p pg = Inr pg1"
    and rest: "store_pages ps pg1 = Inr pg'"
    by (auto split: sum.splits)
  from p have "committed pg1 = working pg1" by (rule store_page_committed)
  with Cons.IH [OF rest] show ?case by simp
qed

lemma rollback_committed: "committed pg = working pg \<Longrightarrow> rollback pg = pg"
  by (simp add: rollback_def)

lemma load_inserts_are_pages:
  assumes "0 < n" and "load_sqlite_to_postgres src pg n = (r, pg', evs)"
      and "Insert T cols p \<in> set evs"
  shows "(T, cols, p) \<in> set (all_pages n src)"
proof -
  from assms(3) have mem: "Insert T cols p \<in> set (calls evs)" by (simp add: calls_def)
  show ?thesis
  proof (cases r)
    case None
    with load_None(2) [OF assms(1), of src pg pg' evs] assms(2) mem
    have "Insert T cols p \<in> set (concat (map page_calls (all_pages n src)))" by simp
    then show ?thesis by (simp only: insert_in_page_calls)
  next
    case (Some e)
    with load_Some [OF assms(1), of src pg e pg' evs] assms(2)
    obtain dn failing rest where
      pages: "all_pages n src = dn @ failing # rest"
      and c: "calls evs = concat (map page_calls dn) @ [hd (page_calls failing), Rollback]"
      by auto
    obtain T' cols' p' where f: "failing = (T', cols', p')" by (cases failing)
    from mem c f have "Insert T cols p \<in> set (concat (map page_calls dn))
                       \<or> (T, cols, p) = failing"
      by auto
    then have "(T, cols, p) \<in> set dn \<or> (T, cols, p) = failing"
      by (simp only: insert_in_page_calls)
    with pages show ?thesis by auto
  qed
qed

text \<open>
  C3, as the code has it. In a run that raises no exception, with a positive batch size,
  a table of N rows gets exactly ceil(N / B) insert calls, written \<open>(N + B - 1) div B\<close>, no
  insert carries more than B rows, and the calls on the target connection are, page after
  page, one insert followed by one commit.
\<close>

theorem batching_without_exception:
  assumes "0 < n"
      and "load_sqlite_to_postgres src pg n = (None, pg', evs)"
      and "distinct (map fst src)"
      and "(T, cols, rows) \<in> set src"
  shows "length (filter (is_insert_into T) evs) = (length rows + n - 1) div n
       \<and> (\<forall>T' cols' p. Insert T' cols' p \<in> set evs \<longrightarrow> length p \<le> n)
       \<and> calls evs = concat (map page_calls (all_pages n src))"
proof -
  note c = load_None(2) [OF assms(1,2)]
  have "filter (is_insert_into T) evs = filter (is_insert_into T) (calls evs)"
    by (simp add: filter_insert_calls)
  then have "length (filter (is_insert_into T) evs)
             = length (filter (\<lambda>p. fst p = T) (all_pages n src))"
    using c by (simp add: count_inserts_page_calls)
  also have "\<dots> = length (pages_of n (T, cols, rows))"
    using assms(3,4) by (simp add: count_pages_of_table)
  also have "\<dots> = (length rows + n - 1) div n"
    using assms(1) by (rule length_pages_of)
  finally have 1: "length (filter (is_insert_into T) evs) = (length rows + n - 1) div n" .
  have 2: "\<forall>T' cols' p. Insert T' cols' p \<in> set evs \<longrightarrow> length p \<le> n"
    using load_inserts_are_pages [OF assms(1,2)] all_pages_sizes by fastforce
  from 1 2 c show ?thesis by blast
qed

text \<open>
  The scenario of the specification: five rows of OrderDetail with a batch size of 2 give
  three inserts, of 2, 2 and 1 rows, each followed by its commit.
\<close>

theorem batching_without_exception_witness:
  "fst (load_sqlite_to_postgres five_orders sample_target 2) = None
   \<and> length (filter (is_insert_into ''OrderDetail'')
               (snd (snd (load_sqlite_to_postgres five_orders sample_target 2)))) = 3
   \<and> calls (snd (snd (load_sqlite_to_postgres five_orders sample_target 2))) =
       [Insert ''OrderDetail'' [''OrderID'', ''QuantityOrdered'']
          [[IntV 1, IntV 10], [IntV 2, IntV 20]], Commit,
        Insert ''OrderDetail'' [''OrderID'', ''QuantityOrdered'']
          [[IntV 3, IntV 30], [IntV 4, IntV 40]], Commit,
        Insert ''OrderDetail'' [''OrderID'', ''QuantityOrdered'']
          [[IntV 5, IntV 50]], Commit]"
proof -
  let ?run = "load_sqlite_to_postgres five_orders sample_target 2"
  have ok: "fst ?run = None" by code_simp
  then have run: "?run = (None, fst (snd ?run), snd (snd ?run))"
    by (metis prod.collapse)
  have pos: "0 < (2::nat)" by simp
  have d: "distinct (map fst five_orders)" by (simp add: five_orders_def)
  have m: "(''OrderDetail'', [''OrderID'', ''QuantityOrdered''],
            [[IntV 1, IntV 10], [IntV 2, IntV 20], [IntV 3, IntV 30], [IntV 4, IntV 40],
             [IntV 5, IntV 50]]) \<in> set five_orders"
    by (simp add: five_orders_def)
  note t = batching_without_exception [OF pos run d m]
  have pages: "concat (map page_calls (all_pages 2 five_orders)) =
       [Insert ''OrderDetail'' [''OrderID'', ''QuantityOrdered'']
          [[IntV 1, IntV 10], [IntV 2, IntV 20]], Commit,
        Insert ''OrderDetail'' [''OrderID'', ''QuantityOrdered'']
          [[IntV 3, IntV 30], [IntV 4, IntV 40]], Commit,
        Insert ''OrderDetail'' [''OrderID'', ''QuantityOrdered'']
          [[IntV 5, IntV 50]], Commit]"
    by code_simp
  from t ok pages show ?thesis by simp
qed

text \<open>
  C3 as stated does not hold of every run: when the first insert of a table of three rows
  raises (here a NULL in a NOT NULL column, batch size 1), one insert call is made, not
  three, and it is followed by a rollback, not by a commit.
\<close>

theorem batching_counterexample:
  "length (filter (is_insert_into ''Region'')
             (snd (snd (load_sqlite_to_postgres regions_with_null sample_target 1)))) = 1
   \<and> (3 + 1 - 1) div 1 = (3::nat)
   \<and> calls (snd (snd (load_sqlite_to_postgres regions_with_null sample_target 1))) =
       [Insert ''Region'' [''RegionID'', ''Region''] [[IntV 1, Null]], Rollback]"
  by code_simp

text \<open>
  C4. When the transfer raises, with a positive batch size, the pages of the source split
  into those stored before, the failing page and the rest; the connection is left as the
  stored pages made it, rolled back: each of them was committed, so nothing of them is
  lost, and neither the failing page nor a later one has changed the target. The only calls
  after the last commit are the failing insert and one rollback.
\<close>

theorem failure_keeps_earlier_pages:
  assumes "0 < n"
      and "load_sqlite_to_postgres src pg n = (Some e, pg', evs)"
  shows "\<exists>done failing rest pgk.
           all_pages n src = done @ failing # rest
           \<and> store_pages done pg = Inr pgk
           \<and> store_page failing pgk = Inl e
           \<and> pg' = rollback pgk
           \<and> (done \<noteq> [] \<longrightarrow> pg' = pgk \<and> committed pg' = working pgk)
           \<and> calls evs = concat (map page_calls done) @ [hd (page_calls failing), Rollback]"
proof -
  from load_Some [OF assms] obtain dn failing rest pgk where *:
    "all_pages n src = dn @ failing # rest" "store_pages dn pg = Inr pgk"
    "store_page failing pgk = Inl e" "pg' = rollback pgk"
    "calls evs = concat (map page_calls dn) @ [hd (page_calls failing), Rollback]"
    by blast
  have "dn \<noteq> [] \<longrightarrow> pg' = pgk \<and> committed pg' = working pgk"
  proof
    assume "dn \<noteq> []"
    with *(2) have "committed pgk = working pgk" by (auto dest: store_pages_committed)
    with *(4) show "pg' = pgk \<and> committed pg' = working pgk"
      by (simp add: rollback_committed)
  qed
  with * show ?thesis by blast
qed

theorem failure_keeps_earlier_pages_witness:
  "fst (load_sqlite_to_postgres regions_second_null sample_target 1)
     = Some (NotNullViolation ''Region'')
   \<and> rows_of (committed (fst (snd (load_sqlite_to_postgres regions_second_null sample_target 1))))
        ''Region'' = [[IntV 1, TextV ''Americas'']]
   \<and> (\<exists>done failing rest pgk.
         all_pages 1 regions_second_null = done @ failing # rest
         \<and> store_pages done sample_target = Inr pgk
         \<and> store_page failing pgk = Inl (NotNullViolation ''Region'')
         \<and> fst (snd (load_sqlite_to_postgres regions_second_null sample_target 1)) = rollback pgk
         \<and> (done \<noteq> [] \<longrightarrow>
              fst (snd (load_sqlite_to_postgres regions_second_null sample_target 1)) = pgk
              \<and> committed (fst (snd (load_sqlite_to_postgres regions_second_null sample_target 1)))
                  = working pgk)
         \<and> calls (snd (snd (load_sqlite_to_postgres regions_second_null sample_target 1)))
             = concat (map page_calls done) @ [hd (page_calls failing), Rollback])"
proof -
  let ?run = "load_sqlite_to_postgres regions_second_null sample_target 1"
  have err: "fst ?run = Some (NotNullViolation ''Region'')" by code_simp
  then have run: "?run = (Some (NotNullViolation ''Region''), fst (snd ?run), snd (snd ?run))"
    by (metis prod.collapse)
  have pos: "0 < (1::nat)" by simp
  have rows: "rows_of (committed (fst (snd ?run))) ''Region'' = [[IntV 1, TextV ''Americas'']]"
    by code_simp
  from failure_keeps_earlier_pages [OF pos run] err rows show ?thesis by simp
qed

section \<open>Empty fetches\<close>

lemma transfer_table_empty:
  "transfer_table n (T, cols, []) pg = (None, pg, [Print (Starting T), Print (Finished T 0)])"
  by (simp add: transfer_table_def fetch_loop_Nil)

lemma load_calls_well_formed:
  assumes "0 < n" and "load_sqlite_to_postgres src pg n = (r, pg', evs)"
  shows "commits_follow_inserts (calls evs)"
proof (cases r)
  case None
  with load_None(2) [OF assms(1), of src pg pg' evs] assms(2)
  have c: "calls evs = concat (map page_calls (all_pages n src)) @ []" by simp
  have "\<forall>p \<in> set (all_pages n src). snd (snd p) \<noteq> []"
    using all_pages_sizes by blast
  then show ?thesis unfolding c by (simp only: commits_follow_page_calls commits_follow_inserts.simps)
next
  case (Some e)
  with load_Some [OF assms(1), of src pg e pg' evs] assms(2)
  obtain dn failing rest where
    pages: "all_pages n src = dn @ failing # rest"
    and c: "calls evs = concat (map page_calls dn) @ [hd (page_calls failing), Rollback]"
    by auto
  obtain T cols p where f: "failing = (T, cols, p)" by (cases failing)
  from pages f have "(T, cols, p) \<in> set (all_pages n src)" by simp
  then have "p \<noteq> []" using all_pages_sizes by fastforce
  moreover have "\<forall>p \<in> set dn. snd (snd p) \<noteq> []"
    using all_pages_sizes [of _ n src] pages by auto
  ultimately show ?thesis unfolding c using f by (simp add: commits_follow_page_calls)
qed

text \<open>
  C10. With a positive batch size, however the run ends: no insert call carries an empty
  row list, and every commit comes directly after an insert, so none is issued for an
  empty fetch. The loop of a table without rows ends at its first fetch: no insert, no
  commit, the target untouched, and the summary line with 0 rows is printed; in a run
  without exception the summary of every empty table is among the printed lines.
\<close>

theorem no_empty_page_insert:
  assumes "0 < n" and "load_sqlite_to_postgres src pg n = (r, pg', evs)"
  shows "(\<forall>T cols p. Insert T cols p \<in> set evs \<longrightarrow> p \<noteq> [])
       \<and> commits_follow_inserts (calls evs)
       \<and> (\<forall>T cols pg0. transfer_table n (T, cols, []) pg0
                          = (None, pg0, [Print (Starting T), Print (Finished T 0)]))
       \<and> (r = None \<longrightarrow> (\<forall>(T, cols, rows) \<in> set src.
                             rows = [] \<longrightarrow> Print (Finished T 0) \<in> set evs))"
proof -
  have 1: "\<forall>T cols p. Insert T cols p \<in> set evs \<longrightarrow> p \<noteq> []"
    using load_inserts_are_pages [OF assms] all_pages_sizes by fastforce
  have 2: "commits_follow_inserts (calls evs)"
    using assms by (rule load_calls_well_formed)
  have 3: "\<forall>T cols pg0. transfer_table n (T, cols, []) pg0
                         = (None, pg0, [Print (Starting T), Print (Finished T 0)])"
    by (simp add: transfer_table_empty)
  have 4: "r = None \<longrightarrow> (\<forall>(T, cols, rows) \<in> set src.
                            rows = [] \<longrightarrow> Print (Finished T 0) \<in> set evs)"
  proof
    assume "r = None"
    with load_None(3) [OF assms(1), of src pg pg' evs] assms(2)
    have "\<forall>(T, cols, rows) \<in> set src. Print (Finished T (length rows)) \<in> set evs" by simp
    then show "\<forall>(T, cols, rows) \<in> set src. rows = [] \<longrightarrow> Print (Finished T 0) \<in> set evs"
      by fastforce
  qed
  from 1 2 3 4 show ?thesis by blast
qed

theorem no_empty_page_insert_witness:
  "snd (snd (load_sqlite_to_postgres empty_then_orders sample_target 2)) =
     [Acquire SrcCursor, Acquire TgtCursor,
      Print (Starting ''Region''), Print (Finished ''Region'' 0),
      Print (Starting ''OrderDetail''),
      Insert ''OrderDetail'' [''OrderID'', ''QuantityOrdered'']
        [[IntV 1, IntV 10], [IntV 2, IntV 20]], Commit, Print (Batch 2),
      Insert ''OrderDetail'' [''OrderID'', ''QuantityOrdered'']
        [[IntV 3, IntV 30], [IntV 4, IntV 40]], Commit, Print (Batch 4),
      Insert ''OrderDetail'' [''OrderID'', ''QuantityOrdered'']
        [[IntV 5, IntV 50]], Commit, Print (Batch 5),
      Print (Finished ''OrderDetail'' 5),
      Release SrcCursor, Release TgtCursor, Print TotalTime]
   \<and> commits_follow_inserts (calls (snd (snd (load_sqlite_to_postgres empty_then_orders sample_target 2))))
   \<and> Print (Finished ''Region'' 0) \<in> set (snd (snd (load_sqlite_to_postgres empty_then_orders sample_target 2)))"
proof -
  let ?run = "load_sqlite_to_postgres empty_then_orders sample_target 2"
  have ok: "fst ?run = None" by code_simp
  then have run: "?run = (None, fst (snd ?run), snd (snd ?run))"
    by (metis prod.collapse)
  have pos: "0 < (2::nat)" by simp
  have m: "(''Region'', [''RegionID'', ''Region''], []) \<in> set empty_then_orders"
    by (simp add: empty_then_orders_def)
  have evs: "snd (snd ?run) =
     [Acquire SrcCursor, Acquire TgtCursor,
      Print (Starting ''Region''), Print (Finished ''Region'' 0),
      Print (Starting ''OrderDetail''),
      Insert ''OrderDetail'' [''OrderID'', ''QuantityOrdered'']
        [[IntV 1, IntV 10], [IntV 2, IntV 20]], Commit, Print (Batch 2),
      Insert ''OrderDetail'' [''OrderID'', ''QuantityOrdered'']
        [[IntV 3, IntV 30], [IntV 4, IntV 40]], Commit, Print (Batch 4),
      Insert ''OrderDetail'' [''OrderID'', ''QuantityOrdered'']
        [[IntV 5, IntV 50]], Commit, Print (Batch 5),
      Print (Finished ''OrderDetail'' 5),
      Release SrcCursor, Release TgtCursor, Print TotalTime]"
    by code_simp
  note t = no_empty_page_insert [OF pos run]
  from t have b: "commits_follow_inserts (calls (snd (snd ?run)))" by blast
  from t m have c: "Print (Finished ''Region'' 0) \<in> set (snd (snd ?run))" by blast
  from evs b c show ?thesis by blast
qed

section \<open>The entry point, as it runs\<close>

lemma commit_not_cursor_attribute: "''commit'' \<notin> set cursor_attributes"
  by (simp add: cursor_attributes_def)

lemma is_call_Acquire_Release [simp]:
  "calls (Acquire r # evs) = calls evs" "calls (Release r # evs) = calls evs"
  by (simp_all add: calls_def)

lemma calls_ExecScript [simp]: "calls (ExecScript # evs) = ExecScript # calls evs"
  by (simp add: calls_def)

lemma connect_databases_no_calls: "calls (snd (connect_databases b e path url)) = []"
  by (simp add: connect_databases_def split: option.splits)

text \<open>
  The schema step never completes: the cursor has no \<^verbatim>\<open>commit\<close>, so line 137 raises
  whenever it is reached, and no path commits the script.
\<close>

lemma create_tables_fails:
  "\<exists>err evs. create_tables b url e = (Some err, e, evs)
             \<and> (calls evs = [] \<or> calls evs = [ExecScript])"
proof -
  obtain r evs1 where c: "connect_databases b e ''project2normalized.db'' url = (r, evs1)"
    by (cases "connect_databases b e ''project2normalized.db'' url")
  with connect_databases_no_calls [of b e "''project2normalized.db''" url]
  have nc: "calls evs1 = []" by simp
  show ?thesis
  proof (cases r)
    case None
    with c nc show ?thesis by (simp add: create_tables_def)
  next
    case (Some conns)
    obtain conn_s conn_p where "conns = (conn_s, conn_p)" by (cases conns)
    with Some c nc show ?thesis
      by (cases "exec_script STAGING_CREATE_SQL (working conn_p)")
         (simp_all add: create_tables_def commit_not_cursor_attribute)
  qed
qed

lemma main_block_fails:
  "\<exists>err evs. main_block b url e = (Some err, e, evs)
             \<and> (calls evs = [] \<or> calls evs = [ExecScript])"
proof (cases "get_db_url (secrets e)")
  case (Inl err)
  then show ?thesis by (simp add: main_block_def)
next
  case (Inr u)
  obtain err evs where "create_tables b url e = (Some err, e, evs)"
    "calls evs = [] \<or> calls evs = [ExecScript]"
    using create_tables_fails by blast
  with Inr show ?thesis by (simp add: main_block_def)
qed

text \<open>
  Whatever the namespace and the surroundings, the script ends with an uncaught
  exception, leaves every database as it was, and never reaches the transfer: the only
  call it can make on the target is the execution of the schema script.
\<close>

lemma script_fails:
  "\<exists>err evs. script g e = (Some err, e, evs) \<and> (calls evs = [] \<or> calls evs = [ExecScript])"
proof (cases "g_DATABASE_URL g")
  case None
  then show ?thesis by (simp add: script_def)
next
  case (Some url)
  with main_block_fails [of "g_psycopg2 g" url e] show ?thesis by (simp add: script_def)
qed

text \<open>
  C5. The script drops ProductCategory first, before Product, which refers to it: the
  order of the drops does not put every dependent table before the tables it references.
  (\<^verbatim>\<open>CASCADE\<close> lets the drops succeed all the same.)
\<close>

theorem drop_order_breaks_fkey_order:
  "dropped STAGING_CREATE_SQL =
     [''ProductCategory'', ''OrderDetail'', ''Product'', ''Customer'', ''Country'', ''Region'']
   \<and> (''Product'', ''ProductCategory'') \<in> set (fk_edges STAGING_CREATE_SQL)
   \<and> stands_before (dropped STAGING_CREATE_SQL) ''ProductCategory'' ''Product''
   \<and> \<not> stands_before (dropped STAGING_CREATE_SQL) ''Product'' ''ProductCategory''
   \<and> \<not> drops_respect_fkeys STAGING_CREATE_SQL"
  by (simp add: STAGING_CREATE_SQL_def fk_edges_def stands_before_def drops_respect_fkeys_def
        new_table_def)

text \<open>
  C6. Started by the interpreter, the module stops at line 70 with a NameError for
  \<^verbatim>\<open>DATABASE_URL\<close>, in every environment, before any connection is opened: neither the
  schema initialisation nor the transfer takes place.
\<close>

theorem entry_point_raises:
  "entry_point e = (Some (NameError ''DATABASE_URL''), e, [])"
  by (simp add: entry_point_def script_def)

text \<open>
  C9. If the source file cannot be opened or the target cannot be reached, the main block
  ends with an uncaught exception without a single call on the target connection (no
  schema script, no insert, no commit), and every database is left as it was.
\<close>

theorem connection_failure_is_fatal:
  assumes "sqlite_files e ''project2normalized.db'' = None \<or> pg_servers e url = None"
  shows "\<exists>err evs. main_block b url e = (Some err, e, evs) \<and> calls evs = []"
proof (cases "get_db_url (secrets e)")
  case (Inl err)
  then show ?thesis by (simp add: main_block_def)
next
  case (Inr u)
  from assms have "\<exists>evs. connect_databases b e ''project2normalized.db'' url = (None, evs)"
    by (auto simp: connect_databases_def split: option.splits)
  then obtain evs1 where c: "connect_databases b e ''project2normalized.db'' url = (None, evs1)"
    by blast
  with connect_databases_no_calls [of b e "''project2normalized.db''" url]
  have "calls evs1 = []" by simp
  with Inr c show ?thesis by (simp add: main_block_def create_tables_def)
qed

theorem connection_failure_is_fatal_witness:
  "sqlite_files env_without_source ''project2normalized.db'' = None
   \<and> pg_servers env_without_source sample_url \<noteq> None
   \<and> (\<exists>err evs. main_block True sample_url env_without_source
                   = (Some err, env_without_source, evs) \<and> calls evs = [])"
proof -
  have a: "sqlite_files env_without_source ''project2normalized.db'' = None"
    by (simp add: env_without_source_def)
  have b: "pg_servers env_without_source sample_url \<noteq> None"
    by (simp add: env_without_source_def sample_env_def)
  from a have "sqlite_files env_without_source ''project2normalized.db'' = None
               \<or> pg_servers env_without_source sample_url = None" by simp
  from connection_failure_is_fatal [OF this, of True] a b show ?thesis by blast
qed

text \<open>With both stores reachable the schema script is executed, and then line 137 raises.\<close>

lemma reachable_stores_run_schema_script:
  "fst (main_block True sample_url sample_env) = Some (AttributeError ''commit'')
   \<and> snd (snd (main_block True sample_url sample_env)) =
       [Print (Msg ''Creating tables...''), Acquire SrcConn, Acquire TgtConn,
        Release SrcConn, Acquire TgtCursor, ExecScript]"
  by code_simp

text \<open>
  \<^verbatim>\<open>connect_databases\<close> itself leaves the source connection open when the second
  connection cannot be made.
\<close>

lemma connect_databases_leaves_source_open:
  "sqlite_files e path = Some s \<Longrightarrow> \<not> b \<or> pg_servers e url = None \<Longrightarrow>
   fst (connect_databases b e path url) = None
   \<and> held (snd (connect_databases b e path url)) = [SrcConn]"
  by (auto simp: connect_databases_def held_def split: option.splits)

section \<open>Inserting a page\<close>

lemma ins_row_eq: "ins_row tb r = tb\<lparr>t_rows := t_rows (ins_row tb r)\<rparr>"
  by (simp add: ins_row_def)

lemma foldl_ins_row_eq:
  "foldl ins_row tb rs = tb\<lparr>t_rows := t_rows (foldl ins_row tb rs)\<rparr>"
proof (induction rs arbitrary: tb)
  case Nil
  then show ?case by simp
next
  case (Cons r rs)
  have "foldl ins_row (ins_row tb r) rs
        = (ins_row tb r)\<lparr>t_rows := t_rows (foldl ins_row (ins_row tb r) rs)\<rparr>"
    by (rule Cons.IH)
  also have "\<dots> = (tb\<lparr>t_rows := t_rows (ins_row tb r)\<rparr>)
                     \<lparr>t_rows := t_rows (foldl ins_row (ins_row tb r) rs)\<rparr>"
    by (subst ins_row_eq) (rule refl)
  finally show ?case by simp
qed

lemma fk_ok_grows:
  assumes "fk_ok d tcols fk r" and "d T = Some tb"
      and "t_cols tb' = t_cols tb" and "set (t_rows tb) \<subseteq> set (t_rows tb')"
  shows "fk_ok (d(T \<mapsto> tb')) tcols fk r"
proof -
  obtain c rt rc where fk: "fk = (c, rt, rc)" by (cases fk)
  show ?thesis
  proof (cases "rt = T")
    case True
    with assms fk show ?thesis
      by (auto simp: fk_ok_def list_ex_iff)
  next
    case False
    with assms(1) fk show ?thesis by (simp add: fk_ok_def)
  qed
qed

lemma after_insert_fields [simp]:
  "t_cols (after_insert tb cols rs) = t_cols tb"
  "t_types (after_insert tb cols rs) = t_types tb"
  "t_notnull (after_insert tb cols rs) = t_notnull tb"
  "t_unique (after_insert tb cols rs) = t_unique tb"
  "t_fkeys (after_insert tb cols rs) = t_fkeys tb"
  "t_seqs (after_insert tb cols rs) = next_seqs tb cols (length rs)"
  "t_rows (after_insert tb cols rs) = t_rows (foldl ins_row tb (stored_rows tb cols rs))"
  by (simp_all add: after_insert_def)

lemma find_product_None:
  "find (\<lambda>(x, y). P x y) (List.product xs ys) = None \<longleftrightarrow> (\<forall>x \<in> set xs. \<forall>y \<in> set ys. \<not> P x y)"
  by (auto simp: find_None_iff)

text \<open>
  An insert of well-formed rows whose values the column types accept and that respect the
  NOT NULL and FOREIGN KEY constraints succeeds, whatever keys they repeat.
\<close>

lemma insert_stmt_succeeds:
  assumes tb: "d T = Some tb"
      and shape: "set cols \<subseteq> set (t_cols tb)" "distinct cols"
                 "\<forall>r \<in> set rows. length r = length cols \<and> \<not> list_ex has_nul r"
      and conv: "\<forall>r \<in> set rows. \<forall>c \<in> set cols.
                   \<exists>v. assign (col_type tb c) (cell cols r c) = Inr v"
      and notnull: "\<forall>r \<in> set (stored_rows tb cols rows). \<forall>c \<in> set (notnull_cols tb).
                      cell (t_cols tb) r c \<noteq> Null"
      and fks: "\<forall>r \<in> set (stored_rows tb cols rows). \<forall>fk \<in> set (t_fkeys tb).
                  fk_ok d (t_cols tb) fk r"
  shows "insert_stmt T cols rows d = Inr (d(T \<mapsto> after_insert tb cols rows))"
proof -
  let ?new = "stored_rows tb cols rows"
  let ?tb' = "after_insert tb cols rows"
  let ?d' = "d(T \<mapsto> ?tb')"
  let ?added = "drop (length (t_rows tb)) (t_rows ?tb')"
  have "length r = length (hd rows)" if "r \<in> set rows" for r
  proof -
    from that have "hd rows \<in> set rows" by (cases rows) auto
    with that shape(3) show ?thesis by simp
  qed
  with shape(3) have 0: "driver_error rows = None"
    by (simp add: driver_error_None)
  have 1: "check_columns (t_cols tb) [] cols = None"
    using shape(1,2) by (simp add: check_columns_None)
  have 2: "\<not> list_ex (\<lambda>r. length r \<noteq> length cols) rows"
    using shape(3) by (simp add: list_ex_iff)
  have 3: "conversion_error tb cols rows = None"
    using conv by (simp add: conversion_error_None)
  have 4: "find (\<lambda>(r, c). cell (t_cols tb) r c = Null) (List.product ?new (notnull_cols tb)) = None"
    using notnull by (simp add: find_product_None)
  obtain added where a: "t_rows (foldl ins_row tb ?new) = t_rows tb @ added" "set added \<subseteq> set ?new"
    using foldl_ins_row_rows by blast
  then have added: "set ?added \<subseteq> set ?new" by simp
  have grow: "set (t_rows tb) \<subseteq> set (t_rows ?tb')" using a by auto
  have "fk_ok ?d' (t_cols tb) fk r" if "fk \<in> set (t_fkeys tb)" "r \<in> set ?added" for fk r
  proof -
    from that(2) added have "r \<in> set ?new" by auto
    with fks that(1) have "fk_ok d (t_cols tb) fk r" by blast
    then show ?thesis using tb _ grow by (rule fk_ok_grows) simp
  qed
  then have 5: "find (\<lambda>(r, fk). \<not> fk_ok ?d' (t_cols tb) fk r) (List.product ?added (t_fkeys tb)) = None"
    by (simp add: find_product_None)
  from 5 have fk5: "find (\<lambda>(r, fk). \<not> fk_ok ?d' (t_cols tb) fk r)
              (List.product (drop (length (t_rows tb)) (t_rows (foldl ins_row tb ?new))) (t_fkeys tb)) = None"
    by simp
  show ?thesis
    using tb 0 1 2 3 4 fk5 by (simp add: insert_stmt_def Let_def after_insert_def)
qed

lemma fetch_loop_one_page:
  assumes "rows \<noteq> []" "length rows \<le> n"
      and "insert_stmt T cols rows (working pg) = Inr d"
  shows "fetch_loop n T cols rows k pg
         = (Inr (k + length rows), \<lparr>committed = d, working = d\<rparr>,
            [Insert T cols rows, Commit, Print (Batch (k + length rows))])"
proof -
  from assms(1,2) have t: "take n rows = rows" "drop n rows = []" by simp_all
  have ev: "execute_values T cols rows n pg = (None, pg\<lparr>working := d\<rparr>)"
    using assms by (simp add: execute_values_page)
  have c: "commit (pg\<lparr>working := d\<rparr>) = \<lparr>committed = d, working = d\<rparr>"
    by (simp add: commit_def)
  show ?thesis
    using assms(1) t ev c
    by (simp add: fetch_loop.simps [of n T cols rows] fetch_loop_Nil Let_def)
qed

section \<open>Duplicate keys\<close>

lemma foldl_ins_row_adds:
  assumes i: "i < length rs"
      and old: "\<forall>r' \<in> set (t_rows tb). \<not> clash tb (rs ! i) r'"
      and earlier: "\<forall>j < i. \<not> clash tb (rs ! i) (rs ! j)"
      and added: "t_rows (foldl ins_row tb rs) = t_rows tb @ added"
  shows "rs ! i \<in> set added"
proof -
  let ?mid = "foldl ins_row tb (take i rs)"
  have split: "rs = take i rs @ rs ! i # drop (Suc i) rs"
    using i by (rule id_take_nth_drop)
  obtain a1 where a1: "t_rows ?mid = t_rows tb @ a1" "set a1 \<subseteq> set (take i rs)"
    using foldl_ins_row_rows by blast
  have "\<forall>r' \<in> set (take i rs). \<not> clash tb (rs ! i) r'"
    using earlier i by (auto simp: in_set_conv_nth)
  with a1 old have "\<not> conflicts ?mid (rs ! i)"
    by (auto simp: conflicts_iff)
  then have step: "t_rows (ins_row ?mid (rs ! i)) = t_rows tb @ a1 @ [rs ! i]"
    using a1 by (simp add: ins_row_rows)
  obtain a2 where a2: "t_rows (foldl ins_row (ins_row ?mid (rs ! i)) (drop (Suc i) rs))
                       = t_rows (ins_row ?mid (rs ! i)) @ a2"
    using foldl_ins_row_rows by blast
  have "foldl ins_row tb rs = foldl ins_row (ins_row ?mid (rs ! i)) (drop (Suc i) rs)"
    by (subst split) simp
  with a2 step added have "t_rows tb @ added = t_rows tb @ a1 @ [rs ! i] @ a2" by simp
  then have "added = a1 @ [rs ! i] @ a2" by simp
  then show ?thesis by simp
qed

text \<open>
  C8. One pass of the loop over a page of well-formed rows whose values the column types
  accept (an integer within the 32 bits of an \<^verbatim>\<open>INTEGER\<close> or \<^verbatim>\<open>SERIAL\<close> column, for one)
  and whose stored form respects the NOT NULL and FOREIGN KEY constraints of the table:
  whatever keys the rows repeat, the insert raises nothing and is committed; the rows
  \<open>added\<close> to the table are stored forms of rows of the page; a row whose primary or unique
  key is held by a row of the target is not added, and a row whose key is held neither by
  the target nor by an earlier row of the page is added, beside the skipped ones. The only
  line printed counts the rows fetched, skipped or not.
\<close>

theorem duplicate_rows_are_skipped:
  assumes tb: "working pg T = Some tb"
      and page: "rows \<noteq> []" "length rows \<le> n"
      and shape: "set cols \<subseteq> set (t_cols tb)" "distinct cols"
                 "\<forall>r \<in> set rows. length r = length cols \<and> \<not> list_ex has_nul r"
      and conv: "\<forall>r \<in> set rows. \<forall>c \<in> set cols.
                   \<exists>v. assign (col_type tb c) (cell cols r c) = Inr v"
      and notnull: "\<forall>r \<in> set (stored_rows tb cols rows). \<forall>c \<in> set (notnull_cols tb).
                      cell (t_cols tb) r c \<noteq> Null"
      and fks: "\<forall>r \<in> set (stored_rows tb cols rows). \<forall>fk \<in> set (t_fkeys tb).
                  fk_ok (working pg) (t_cols tb) fk r"
  shows "\<exists>added.
           fetch_loop n T cols rows k pg
             = (Inr (k + length rows),
                \<lparr>committed = (working pg)(T \<mapsto>
                   tb\<lparr>t_seqs := next_seqs tb cols (length rows), t_rows := t_rows tb @ added\<rparr>),
                 working = (working pg)(T \<mapsto>
                   tb\<lparr>t_seqs := next_seqs tb cols (length rows), t_rows := t_rows tb @ added\<rparr>)\<rparr>,
                [Insert T cols rows, Commit, Print (Batch (k + length rows))])
           \<and> set added \<subseteq> set (stored_rows tb cols rows)
           \<and> (\<forall>r \<in> set (stored_rows tb cols rows).
                 (\<exists>r' \<in> set (t_rows tb). clash tb r r') \<longrightarrow> r \<notin> set added)
           \<and> (\<forall>i < length rows.
                 (\<forall>r' \<in> set (t_rows tb). \<not> clash tb (stored_rows tb cols rows ! i) r') \<longrightarrow>
                 (\<forall>j < i. \<not> clash tb (stored_rows tb cols rows ! i)
                                    (stored_rows tb cols rows ! j)) \<longrightarrow>
                 stored_rows tb cols rows ! i \<in> set added)"
proof -
  let ?new = "stored_rows tb cols rows"
  let ?tb' = "foldl ins_row tb ?new"
  obtain added where a: "t_rows ?tb' = t_rows tb @ added" "set added \<subseteq> set ?new"
    using foldl_ins_row_rows by blast
  have "?tb' = tb\<lparr>t_rows := t_rows tb @ added\<rparr>"
    using foldl_ins_row_eq [of tb ?new] a(1) by simp
  then have tb': "after_insert tb cols rows
                  = tb\<lparr>t_seqs := next_seqs tb cols (length rows), t_rows := t_rows tb @ added\<rparr>"
    by (simp add: after_insert_def)
  have "insert_stmt T cols rows (working pg) = Inr ((working pg)(T \<mapsto> after_insert tb cols rows))"
    using tb shape conv notnull fks by (rule insert_stmt_succeeds)
  from fetch_loop_one_page [OF page this, of k] tb'
  have 1: "fetch_loop n T cols rows k pg
             = (Inr (k + length rows),
                \<lparr>committed = (working pg)(T \<mapsto>
                   tb\<lparr>t_seqs := next_seqs tb cols (length rows), t_rows := t_rows tb @ added\<rparr>),
                 working = (working pg)(T \<mapsto>
                   tb\<lparr>t_seqs := next_seqs tb cols (length rows), t_rows := t_rows tb @ added\<rparr>)\<rparr>,
                [Insert T cols rows, Commit, Print (Batch (k + length rows))])"
    by simp
  have 3: "\<forall>r \<in> set ?new. (\<exists>r' \<in> set (t_rows tb). clash tb r r') \<longrightarrow> r \<notin> set added"
    using foldl_ins_row_skips [OF a(1)] by blast
  have 4: "\<forall>i < length rows.
             (\<forall>r' \<in> set (t_rows tb). \<not> clash tb (?new ! i) r') \<longrightarrow>
             (\<forall>j < i. \<not> clash tb (?new ! i) (?new ! j)) \<longrightarrow>
             ?new ! i \<in> set added"
  proof (intro allI impI)
    fix i
    assume i: "i < length rows"
      and old: "\<forall>r' \<in> set (t_rows tb). \<not> clash tb (?new ! i) r'"
      and earlier: "\<forall>j < i. \<not> clash tb (?new ! i) (?new ! j)"
    from i have li: "i < length ?new" by simp
    from foldl_ins_row_adds [OF li old earlier a(1)]
    show "?new ! i \<in> set added" .
  qed
  from 1 a(2) 3 4 show ?thesis by blast
qed


text \<open>
  The target holds (1, Americas); the page brings (1, Americas) again and (2, Asia). No
  error is raised, the first row is skipped, the second is stored, and the line printed
  says 2 rows.
\<close>

theorem duplicate_rows_are_skipped_witness:
  "fetch_loop 2 ''Region'' [''RegionID'', ''Region'']
     [[IntV 1, TextV ''Americas''], [IntV 2, TextV ''Asia'']] 0 target_with_americas
   = (Inr 2,
      \<lparr>committed = (working target_with_americas)(''Region'' \<mapsto>
          region_table\<lparr>t_seqs := [(''RegionID'', 1)],
                        t_rows := [[IntV 1, TextV ''Americas''], [IntV 2, TextV ''Asia'']]\<rparr>),
       working = (working target_with_americas)(''Region'' \<mapsto>
          region_table\<lparr>t_seqs := [(''RegionID'', 1)],
                        t_rows := [[IntV 1, TextV ''Americas''], [IntV 2, TextV ''Asia'']]\<rparr>)\<rparr>,
      [Insert ''Region'' [''RegionID'', ''Region'']
         [[IntV 1, TextV ''Americas''], [IntV 2, TextV ''Asia'']], Commit, Print (Batch 2)])"
proof -
  let ?tb = "region_table\<lparr>t_rows := [[IntV 1, TextV ''Americas'']]\<rparr>"
  let ?cols = "[''RegionID'', ''Region'']"
  let ?rows = "[[IntV 1, TextV ''Americas''], [IntV 2, TextV ''Asia'']]"
  have tb: "working target_with_americas ''Region'' = Some ?tb"
    by (simp add: target_with_americas_def)
  have page: "?rows \<noteq> []" "length ?rows \<le> 2" by simp_all
  have shape: "set ?cols \<subseteq> set (t_cols ?tb)" "distinct ?cols"
    "\<forall>r \<in> set ?rows. length r = length ?cols \<and> \<not> list_ex has_nul r"
    by (simp_all add: region_table_def new_table_def has_nul_def)
  have conv: "\<forall>r \<in> set ?rows. \<forall>c \<in> set ?cols.
                \<exists>v. assign (col_type ?tb c) (cell ?cols r c) = Inr v"
    by (simp add: region_table_def new_table_def col_type_def cell_def int4_def)
  have st: "stored_rows ?tb ?cols ?rows = ?rows"
    by code_simp
  have notnull: "\<forall>r \<in> set (stored_rows ?tb ?cols ?rows). \<forall>c \<in> set (notnull_cols ?tb).
                   cell (t_cols ?tb) r c \<noteq> Null"
    unfolding st by (simp add: region_table_def new_table_def cell_def notnull_cols_def)
  have fks: "\<forall>r \<in> set (stored_rows ?tb ?cols ?rows). \<forall>fk \<in> set (t_fkeys ?tb).
               fk_ok (working target_with_americas) (t_cols ?tb) fk r"
    by (simp add: region_table_def new_table_def)
  have sq: "next_seqs ?tb ?cols (length ?rows) = [(''RegionID'', 1)]"
    by code_simp
  from duplicate_rows_are_skipped [OF tb page shape conv notnull fks, of 0]
  obtain added where run: "fetch_loop 2 ''Region'' ?cols ?rows 0 target_with_americas
             = (Inr (0 + length ?rows),
                \<lparr>committed = (working target_with_americas)(''Region'' \<mapsto>
                   ?tb\<lparr>t_seqs := next_seqs ?tb ?cols (length ?rows), t_rows := t_rows ?tb @ added\<rparr>),
                 working = (working target_with_americas)(''Region'' \<mapsto>
                   ?tb\<lparr>t_seqs := next_seqs ?tb ?cols (length ?rows), t_rows := t_rows ?tb @ added\<rparr>)\<rparr>,
                [Insert ''Region'' ?cols ?rows, Commit, Print (Batch (0 + length ?rows))])"
    by blast
  have "rows_of (working (fst (snd (fetch_loop 2 ''Region'' ?cols ?rows 0 target_with_americas))))
          ''Region'' = [[IntV 1, TextV ''Americas''], [IntV 2, TextV ''Asia'']]"
    by code_simp
  with run have "t_rows ?tb @ added = [[IntV 1, TextV ''Americas''], [IntV 2, TextV ''Asia'']]"
    by (simp add: rows_of_def)
  then have "added = [[IntV 2, TextV ''Asia'']]" by simp
  with run sq show ?thesis by simp
qed

section \<open>Content preservation\<close>

lemma store_page_other:
  "store_page (T', cols, p) pg = Inr pg' \<Longrightarrow> T' \<noteq> T \<Longrightarrow> working pg' T = working pg T"
  by (auto simp: store_page_def split: sum.splits dest!: insert_stmt_Inr)

lemma store_pages_other:
  "store_pages ps pg = Inr pg' \<Longrightarrow> \<forall>p \<in> set ps. fst p \<noteq> T \<Longrightarrow> working pg' T = working pg T"
proof (induction ps arbitrary: pg)
  case Nil
  then show ?case by simp
next
  case (Cons p ps)
  obtain T' cols rows where p: "p = (T', cols, rows)" by (cases p)
  from Cons.prems(1) obtain pg1 where s: "store_page p pg = Inr pg1"
    and rest: "store_pages ps pg1 = Inr pg'"
    by (auto split: sum.splits)
  from s p Cons.prems(2) have "working pg1 T = working pg T"
    by (auto dest: store_page_other)
  moreover from Cons.IH [OF rest] Cons.prems(2) have "working pg' T = working pg1 T" by simp
  ultimately show ?case by simp
qed

text \<open>Two statements in a row store what one statement with the rows of both stores.\<close>

lemma col_type_after_insert [simp]: "col_type (after_insert tb cols rs) = col_type tb"
  by (rule ext) (simp add: col_type_def)

lemma map_of_next_seqs:
  "map_of (next_seqs tb cols n) c
   = (if c \<in> set (t_cols tb) \<and> col_type tb c = SERIAL
      then Some (seq_next tb c + (if c \<in> set cols then 0 else int n)) else None)"
proof -
  have "map_of (map (\<lambda>c. (c, f c)) xs) c = (if c \<in> set xs then Some (f c) else None)"
    for f :: "ident \<Rightarrow> int" and xs
    by (induction xs) auto
  then show ?thesis by (simp add: next_seqs_def)
qed

lemma seq_next_after_insert:
  "c \<in> set (t_cols tb) \<Longrightarrow> col_type tb c = SERIAL \<Longrightarrow>
   seq_next (after_insert tb cols rs) c
   = seq_next tb c + (if c \<in> set cols then 0 else int (length rs))"
  by (simp add: seq_next_def [of "after_insert tb cols rs"] map_of_next_seqs)

lemma stored_row_after_insert:
  "stored_row (after_insert tb cols p) cols k r = stored_row tb cols (length p + k) r"
  by (simp add: stored_row_def stored_cell_def seq_next_after_insert)

lemma stored_rows_append:
  "stored_rows tb cols (p @ q)
   = stored_rows tb cols p @ stored_rows (after_insert tb cols p) cols q"
proof (rule nth_equalityI)
  show "length (stored_rows tb cols (p @ q))
        = length (stored_rows tb cols p @ stored_rows (after_insert tb cols p) cols q)"
    by simp
next
  fix i assume "i < length (stored_rows tb cols (p @ q))"
  then have i: "i < length (p @ q)" by simp
  show "stored_rows tb cols (p @ q) ! i
        = (stored_rows tb cols p @ stored_rows (after_insert tb cols p) cols q) ! i"
  proof (cases "i < length p")
    case True
    with i show ?thesis by (simp add: nth_stored_rows nth_append)
  next
    case False
    with i have "i - length p < length q" by simp
    with i False show ?thesis
      by (simp add: nth_stored_rows nth_append stored_row_after_insert)
  qed
qed

lemma clash_seqs [simp]: "clash (tb\<lparr>t_seqs := s\<rparr>) = clash tb"
  by (intro ext) (simp add: clash_def)

lemma ins_row_seqs: "ins_row (tb\<lparr>t_seqs := s\<rparr>) r = (ins_row tb r)\<lparr>t_seqs := s\<rparr>"
  by (simp add: ins_row_def conflicts_def)

lemma foldl_ins_row_seqs:
  "foldl ins_row (tb\<lparr>t_seqs := s\<rparr>) rs = (foldl ins_row tb rs)\<lparr>t_seqs := s\<rparr>"
  by (induction rs arbitrary: tb) (simp_all add: ins_row_seqs)

lemma next_seqs_after_insert:
  "next_seqs (after_insert tb cols p) cols n = next_seqs tb cols (length p + n)"
  by (simp add: next_seqs_def seq_next_after_insert)

lemma after_insert_append:
  "after_insert (after_insert tb cols p) cols q = after_insert tb cols (p @ q)"
proof -
  have "after_insert (after_insert tb cols p) cols q
        = (foldl ins_row (after_insert tb cols p) (stored_rows (after_insert tb cols p) cols q))
            \<lparr>t_seqs := next_seqs tb cols (length p + length q)\<rparr>"
    by (simp add: after_insert_def [of "after_insert tb cols p"] next_seqs_after_insert)
  also have "foldl ins_row (after_insert tb cols p) (stored_rows (after_insert tb cols p) cols q)
        = (foldl ins_row tb (stored_rows tb cols (p @ q)))\<lparr>t_seqs := next_seqs tb cols (length p)\<rparr>"
    by (simp add: after_insert_def [of tb cols p] foldl_ins_row_seqs stored_rows_append)
  finally show ?thesis by (simp add: after_insert_def)
qed


text \<open>Storing the pages of a table stores its rows one after the other.\<close>

lemma store_pages_table:
  "store_pages (map (\<lambda>p. (T, cols, p)) ps) pg = Inr pg' \<Longrightarrow> working pg T = Some tb \<Longrightarrow>
   ps \<noteq> [] \<Longrightarrow>
   working pg' T = Some (after_insert tb cols (concat ps))
   \<and> set cols \<subseteq> set (t_cols tb)
   \<and> conversion_error tb cols (concat ps) = None"
proof (induction ps arbitrary: pg tb)
  case Nil
  then show ?case by simp
next
  case (Cons p ps)
  from Cons.prems(1) obtain pg1 where s: "store_page (T, cols, p) pg = Inr pg1"
    and rest: "store_pages (map (\<lambda>p. (T, cols, p)) ps) pg1 = Inr pg'"
    by (auto split: sum.splits)
  let ?tb1 = "after_insert tb cols p"
  from s Cons.prems(2) have w1: "working pg1 T = Some ?tb1"
    and cols: "set cols \<subseteq> set (t_cols tb)"
    and conv: "conversion_error tb cols p = None"
    by (auto simp: store_page_def split: sum.splits dest!: insert_stmt_Inr)
  show ?case
  proof (cases "ps = []")
    case True
    with rest w1 cols conv show ?thesis by simp
  next
    case False
    from Cons.IH [OF rest w1 False]
    have w: "working pg' T = Some (after_insert ?tb1 cols (concat ps))"
      and conv': "conversion_error ?tb1 cols (concat ps) = None"
      by simp_all
    from conv conv' have "conversion_error tb cols (p @ concat ps) = None"
      by (auto simp: conversion_error_None)
    with w cols show ?thesis by (simp add: after_insert_append)
  qed
qed

lemma store_pages_of_table:
  assumes "0 < n" and "store_pages (pages_of n (T, cols, rows)) pg = Inr pg'"
      and "working pg T = Some tb" and "rows \<noteq> []"
  shows "working pg' T = Some (after_insert tb cols rows)"
    and "set cols \<subseteq> set (t_cols tb)"
    and "conversion_error tb cols rows = None"
proof -
  have ne: "paginate n rows \<noteq> []"
    using assms(1,4) by (simp add: paginate.simps [of n rows])
  from assms(2) have "store_pages (map (\<lambda>p. (T, cols, p)) (paginate n rows)) pg = Inr pg'"
    by (simp add: pages_of_def)
  from store_pages_table [OF this assms(3) ne] assms(1)
  show "working pg' T = Some (after_insert tb cols rows)"
    and "set cols \<subseteq> set (t_cols tb)"
    and "conversion_error tb cols rows = None"
    by (simp_all add: concat_paginate)
qed

lemma pages_of_names: "p \<in> set (all_pages n src) \<Longrightarrow> fst p \<in> fst ` set src"
  by (auto simp: all_pages_def dest!: pages_of_sizes)

text \<open>
  After a transfer without exception, the committed table holds the rows it had, followed
  by the stored forms of the rows of the source table, inserted in their order.
\<close>

lemma store_all_pages_table:
  assumes pos: "0 < n"
      and run: "store_pages (all_pages n src) pg = Inr pg'"
      and dist: "distinct (map fst src)"
      and mem: "(T, cols, rows) \<in> set src" and ne: "rows \<noteq> []"
      and tb: "working pg T = Some tb"
  shows "committed pg' T = Some (after_insert tb cols rows)"
    and "set cols \<subseteq> set (t_cols tb)"
    and "conversion_error tb cols rows = None"
proof -
  from mem obtain before after where split: "src = before @ (T, cols, rows) # after"
    by (auto simp: in_set_conv_decomp)
  with dist have nb: "T \<notin> fst ` set before" and na: "T \<notin> fst ` set after" by auto
  have pages: "all_pages n src
               = all_pages n before @ pages_of n (T, cols, rows) @ all_pages n after"
    by (simp add: split all_pages_def)
  from run pages obtain pg1 pg2 where
    s1: "store_pages (all_pages n before) pg = Inr pg1"
    and s2: "store_pages (pages_of n (T, cols, rows)) pg1 = Inr pg2"
    and s3: "store_pages (all_pages n after) pg2 = Inr pg'"
    by (auto simp: store_pages_append split: sum.splits)
  have "\<forall>p \<in> set (all_pages n before). fst p \<noteq> T"
    using nb pages_of_names by fastforce
  with s1 tb have w1: "working pg1 T = Some tb" by (simp add: store_pages_other)
  from store_pages_of_table(1) [OF pos s2 w1 ne]
  have w2: "working pg2 T = Some (after_insert tb cols rows)" .
  from store_pages_of_table(2) [OF pos s2 w1 ne]
  show "set cols \<subseteq> set (t_cols tb)" .
  from store_pages_of_table(3) [OF pos s2 w1 ne]
  show "conversion_error tb cols rows = None" .
  have "pages_of n (T, cols, rows) \<noteq> []"
    using pos ne by (simp add: pages_of_step)
  with s2 have c2: "committed pg2 = working pg2" by (auto dest: store_pages_committed)
  with s3 have c3: "committed pg' = working pg'" by (auto dest: store_pages_committed)
  have "\<forall>p \<in> set (all_pages n after). fst p \<noteq> T"
    using na pages_of_names by fastforce
  with s3 have "working pg' T = working pg2 T" by (simp add: store_pages_other)
  with w2 c3 show "committed pg' T = Some (after_insert tb cols rows)"
    by simp
qed

lemma same_kind_assign: "same_kind ty v \<Longrightarrow> assign ty v = Inr v' \<Longrightarrow> v' = v"
  by (cases "(ty, v)" rule: same_kind.cases) (auto simp: int4_def split: if_splits)

lemma stored_cell_named:
  "c \<in> set cols \<Longrightarrow> assign (col_type tb c) (cell cols r c) = Inr v \<Longrightarrow>
   stored_cell tb cols k r c = v"
  by (simp add: stored_cell_def)


text \<open>
  C1. After a run that raises no exception (positive batch size, table names distinct as
  in an SQLite catalog), a row of a source table whose key, as stored, is held neither by a
  row the target table had before the run nor by an earlier row of the same source table
  is in the committed target table of the same name. In every column that the source
  names it holds there the value that the type of the column makes of the source value;
  this is the source value itself when that is NULL, an integer for an \<^verbatim>\<open>INTEGER\<close> or
  \<^verbatim>\<open>SERIAL\<close> column, or a text for a \<^verbatim>\<open>TEXT\<close> column.
\<close>

theorem content_preservation:
  assumes "0 < n"
      and "load_sqlite_to_postgres src pg n = (None, pg', evs)"
      and "distinct (map fst src)"
      and "(T, cols, rows) \<in> set src" and "i < length rows"
      and "working pg T = Some tb"
      and "\<forall>r' \<in> set (t_rows tb). \<not> clash tb (stored_rows tb cols rows ! i) r'"
      and "\<forall>j < i. \<not> clash tb (stored_rows tb cols rows ! i) (stored_rows tb cols rows ! j)"
  shows "\<exists>tb'. committed pg' T = Some tb' \<and> t_cols tb' = t_cols tb
              \<and> stored_rows tb cols rows ! i \<in> set (t_rows tb')
              \<and> (\<forall>c \<in> set cols.
                    assign (col_type tb c) (cell cols (rows ! i) c)
                      = Inr (cell (t_cols tb') (stored_rows tb cols rows ! i) c)
                    \<and> (same_kind (col_type tb c) (cell cols (rows ! i) c) \<longrightarrow>
                         cell (t_cols tb') (stored_rows tb cols rows ! i) c
                           = cell cols (rows ! i) c))"
proof -
  let ?new = "stored_rows tb cols rows"
  let ?tb' = "after_insert tb cols rows"
  from assms(5) have ne: "rows \<noteq> []" by auto
  note run = load_None(1) [OF assms(1,2)]
  note st = store_all_pages_table [OF assms(1) run assms(3,4) ne assms(6)]
  from st(1) have c: "committed pg' T = Some ?tb'" .
  from st(2) have cols: "set cols \<subseteq> set (t_cols tb)" .
  have li: "i < length ?new" using assms(5) by simp
  from foldl_ins_row_stores [OF li assms(7,8)]
  have stored: "?new ! i \<in> set (t_rows ?tb')" by simp
  have vals: "assign (col_type tb c) (cell cols (rows ! i) c) = Inr (cell (t_cols ?tb') (?new ! i) c)
              \<and> (same_kind (col_type tb c) (cell cols (rows ! i) c) \<longrightarrow>
                    cell (t_cols ?tb') (?new ! i) c = cell cols (rows ! i) c)"
    if c: "c \<in> set cols" for c
  proof -
    from assms(5) have "rows ! i \<in> set rows" by simp
    with st(3) c obtain v where v: "assign (col_type tb c) (cell cols (rows ! i) c) = Inr v"
      unfolding conversion_error_None by blast
    from c cols have "c \<in> set (t_cols tb)" by auto
    then have "cell (t_cols ?tb') (?new ! i) c = stored_cell tb cols i (rows ! i) c"
      using assms(5) by (simp add: nth_stored_rows cell_stored_row)
    also have "\<dots> = v" using c v by (rule stored_cell_named)
    finally have eq: "cell (t_cols ?tb') (?new ! i) c = v" .
    with v same_kind_assign [OF _ v] show ?thesis by auto
  qed
  from c stored vals show ?thesis by simp
qed



text \<open>
  The target holds the Region row (1, Americas); the source holds it too, followed by
  (2, Asia) and (3, Europe). After the run with pages of two rows the third row of the
  source is in the target table, with the values it has in the source.
\<close>

theorem content_preservation_witness:
  "fst (load_sqlite_to_postgres three_regions target_with_americas 2) = None
   \<and> rows_of (committed (fst (snd (load_sqlite_to_postgres three_regions target_with_americas 2))))
        ''Region''
       = [[IntV 1, TextV ''Americas''], [IntV 2, TextV ''Asia''], [IntV 3, TextV ''Europe'']]
   \<and> (\<exists>tb'. committed (fst (snd (load_sqlite_to_postgres three_regions target_with_americas 2)))
                ''Region'' = Some tb'
            \<and> t_cols tb' = [''RegionID'', ''Region'']
            \<and> [IntV 3, TextV ''Europe''] \<in> set (t_rows tb')
            \<and> cell (t_cols tb') [IntV 3, TextV ''Europe''] ''RegionID'' = IntV 3
            \<and> cell (t_cols tb') [IntV 3, TextV ''Europe''] ''Region'' = TextV ''Europe'')"
proof -
  let ?run = "load_sqlite_to_postgres three_regions target_with_americas 2"
  let ?tb = "region_table\<lparr>t_rows := [[IntV 1, TextV ''Americas'']]\<rparr>"
  let ?cols = "[''RegionID'', ''Region'']"
  let ?rows = "[[IntV 1, TextV ''Americas''], [IntV 2, TextV ''Asia''], [IntV 3, TextV ''Europe'']]"
  have ok: "fst ?run = None" by code_simp
  then have run: "?run = (None, fst (snd ?run), snd (snd ?run))"
    by (metis prod.collapse)
  have rows: "rows_of (committed (fst (snd ?run))) ''Region'' = ?rows"
    by code_simp
  have pos: "0 < (2::nat)" by simp
  have d: "distinct (map fst three_regions)" by (simp add: three_regions_def)
  have m: "(''Region'', ?cols, ?rows) \<in> set three_regions" by (simp add: three_regions_def)
  have i: "2 < length ?rows" by simp
  have tb: "working target_with_americas ''Region'' = Some ?tb"
    by (simp add: target_with_americas_def)
  have st: "stored_rows ?tb ?cols ?rows = ?rows" by code_simp
  have tc: "t_cols ?tb = ?cols" "t_unique ?tb = [[''RegionID''], [''Region'']]"
    "t_rows ?tb = [[IntV 1, TextV ''Americas'']]"
    by (simp_all add: region_table_def new_table_def)
  have third: "?rows ! 2 = [IntV 3, TextV ''Europe'']" by simp
  have old: "\<forall>r' \<in> set (t_rows ?tb). \<not> clash ?tb (stored_rows ?tb ?cols ?rows ! 2) r'"
    unfolding st third by (simp add: clash_def same_key_def cell_def tc)
  have "\<not> clash ?tb [IntV 3, TextV ''Europe''] [IntV 1, TextV ''Americas'']"
    "\<not> clash ?tb [IntV 3, TextV ''Europe''] [IntV 2, TextV ''Asia'']"
    by (simp_all add: clash_def same_key_def cell_def tc)
  then have earlier: "\<forall>j < 2. \<not> clash ?tb (stored_rows ?tb ?cols ?rows ! 2)
                                         (stored_rows ?tb ?cols ?rows ! j)"
    unfolding st third by (auto simp: less_2_cases_iff)
  have same: "same_kind (col_type ?tb ''RegionID'') (cell ?cols (?rows ! 2) ''RegionID'')"
    "same_kind (col_type ?tb ''Region'') (cell ?cols (?rows ! 2) ''Region'')"
    by (simp_all add: col_type_def cell_def region_table_def new_table_def)
  from content_preservation [OF pos run d m i tb old earlier]
  obtain tb' where t: "committed (fst (snd ?run)) ''Region'' = Some tb'"
    "t_cols tb' = t_cols ?tb"
    "stored_rows ?tb ?cols ?rows ! 2 \<in> set (t_rows tb')"
    "\<forall>c \<in> set ?cols.
       assign (col_type ?tb c) (cell ?cols (?rows ! 2) c)
         = Inr (cell (t_cols tb') (stored_rows ?tb ?cols ?rows ! 2) c)
       \<and> (same_kind (col_type ?tb c) (cell ?cols (?rows ! 2) c) \<longrightarrow>
            cell (t_cols tb') (stored_rows ?tb ?cols ?rows ! 2) c = cell ?cols (?rows ! 2) c)"
    by blast
  from t(4) same have "cell (t_cols tb') (stored_rows ?tb ?cols ?rows ! 2) ''RegionID''
                         = cell ?cols (?rows ! 2) ''RegionID''"
    "cell (t_cols tb') (stored_rows ?tb ?cols ?rows ! 2) ''Region''
                         = cell ?cols (?rows ! 2) ''Region''"
    by simp_all
  then have "cell (t_cols tb') [IntV 3, TextV ''Europe''] ''RegionID'' = IntV 3"
    "cell (t_cols tb') [IntV 3, TextV ''Europe''] ''Region'' = TextV ''Europe''"
    unfolding st third by (simp_all add: cell_def)
  moreover from t(3) have "[IntV 3, TextV ''Europe''] \<in> set (t_rows tb')"
    unfolding st third .
  moreover from t(2) have "t_cols tb' = ?cols" by (simp only: tc)
  ultimately have "\<exists>tb'. committed (fst (snd ?run)) ''Region'' = Some tb'
            \<and> t_cols tb' = [''RegionID'', ''Region'']
            \<and> [IntV 3, TextV ''Europe''] \<in> set (t_rows tb')
            \<and> cell (t_cols tb') [IntV 3, TextV ''Europe''] ''RegionID'' = IntV 3
            \<and> cell (t_cols tb') [IntV 3, TextV ''Europe''] ''Region'' = TextV ''Europe''"
    using t(1) by (intro exI [of _ tb']) (simp only: simp_thms)
  with ok rows show ?thesis by (simp only: simp_thms)
qed

text \<open>
  C1 as stated does not hold for a \<^verbatim>\<open>REAL\<close> column. The source holds a product priced
  1234.56789; the run into the empty tables of the schema script raises nothing, the key
  of the row is new, and the target row holds the price \<open>2528395 \<cdot> 2\<^sup>-\<^sup>1\<^sup>1\<close>, that is
  1234.56787109375: the source row itself is not in the target table.
\<close>

theorem content_preservation_counterexample:
  "fst (load_sqlite_to_postgres priced_products staging_target 2) = None
   \<and> rows_of (committed staging_target) ''Product'' = []
   \<and> rows_of (committed (fst (snd (load_sqlite_to_postgres priced_products staging_target 2))))
        ''Product''
       = [[IntV 1, TextV ''Laptop'', RealV 2528395 (- 11), IntV 1]]
   \<and> [IntV 1, TextV ''Laptop'', RealV 5429687001335527 (- 42), IntV 1]
       \<notin> set (rows_of (committed (fst (snd (load_sqlite_to_postgres priced_products
                                                 staging_target 2)))) ''Product'')
   \<and> (2528395 :: int) * 2 ^ 31 \<noteq> 5429687001335527"
  by code_simp

section \<open>Cursors are closed\<close>

lemma held_after_append: "held_after acc (xs @ ys) = held_after (held_after acc xs) ys"
  by (induction acc xs rule: held_after.induct) simp_all

lemma resource_events_append [simp]:
  "resource_events (xs @ ys) = resource_events xs @ resource_events ys"
  by (simp add: resource_events_def)

lemma fetch_loop_resource_events:
  "fetch_loop n T cols pending k pg = (res, pg', evs) \<Longrightarrow> resource_events evs = []"
proof (induction n T cols pending k pg arbitrary: res pg' evs rule: fetch_loop.induct)
  case (1 n T cols pending k pg)
  note run = "1.prems"
  let ?rows = "take n pending"
  show ?case
  proof (cases "?rows = []")
    case True
    with run show ?thesis by (simp add: fetch_loop.simps [of n T cols pending] resource_events_def)
  next
    case ne: False
    obtain r1 pg1 where ev: "execute_values T cols ?rows n pg = (r1, pg1)"
      by (cases "execute_values T cols ?rows n pg")
    show ?thesis
    proof (cases r1)
      case (Some e)
      with run ev ne show ?thesis
        by (auto simp: fetch_loop.simps [of n T cols pending] resource_events_def)
    next
      case None
      obtain res3 pg3 evs3 where rec:
        "fetch_loop n T cols (drop n pending) (k + length ?rows) (commit pg1) = (res3, pg3, evs3)"
        by (cases "fetch_loop n T cols (drop n pending) (k + length ?rows) (commit pg1)")
      from ev None have ev': "(None, pg1) = execute_values T cols ?rows n pg" by simp
      from run ev None ne rec
      have evs: "evs = [Insert T cols ?rows, Commit, Print (Batch (k + length ?rows))] @ evs3"
        by (simp add: fetch_loop.simps [of n T cols pending] Let_def)
      from "1.IH" [OF refl ne ev' refl refl refl rec]
      have "resource_events evs3 = []" .
      with evs show ?thesis by (simp add: resource_events_def)
    qed
  qed
qed

lemma transfer_table_resource_events:
  "transfer_table n st pg = (res, pg', evs) \<Longrightarrow> resource_events evs = []"
proof -
  assume run: "transfer_table n st pg = (res, pg', evs)"
  obtain T cols rows where st: "st = (T, cols, rows)" by (cases st)
  obtain r1 pg1 evs1 where fl: "fetch_loop n T cols rows 0 pg = (r1, pg1, evs1)"
    by (cases "fetch_loop n T cols rows 0 pg")
  from fetch_loop_resource_events [OF fl]
  have "resource_events evs1 = []" .
  with run st fl show ?thesis
    by (cases r1) (auto simp: transfer_table_def resource_events_def)
qed

lemma transfer_tables_resource_events:
  "transfer_tables n src pg = (res, pg', evs) \<Longrightarrow> resource_events evs = []"
proof (induction src arbitrary: pg res pg' evs)
  case Nil
  then show ?case by (simp add: resource_events_def)
next
  case (Cons st sts)
  obtain r1 pg1 evs1 where t1: "transfer_table n st pg = (r1, pg1, evs1)"
    by (cases "transfer_table n st pg")
  note a = transfer_table_resource_events [OF t1]
  show ?case
  proof (cases r1)
    case (Some e)
    with Cons.prems t1 a show ?thesis by auto
  next
    case None
    obtain r2 pg2 evs2 where t2: "transfer_tables n sts pg1 = (r2, pg2, evs2)"
      by (cases "transfer_tables n sts pg1")
    from Cons.IH [OF t2] a Cons.prems t1 None t2 show ?thesis by auto
  qed
qed

lemma held_after_resource_events:
  "held_after acc evs = held_after acc (resource_events evs)"
  by (induction acc evs rule: held_after.induct) (simp_all add: resource_events_def)

text \<open>
  C7. On both ways out of \<^verbatim>\<open>load_sqlite_to_postgres\<close>, with or without an exception in
  the loop, the function has opened the two cursors and closed them again (\<^verbatim>\<open>finally\<close>);
  it has opened and closed nothing else, so that nothing it opened is left open and the
  two connections are left to its caller.
\<close>

theorem cursors_closed_on_every_exit:
  "resource_events (snd (snd (load_sqlite_to_postgres src pg n)))
     = [Acquire SrcCursor, Acquire TgtCursor, Release SrcCursor, Release TgtCursor]
   \<and> held (snd (snd (load_sqlite_to_postgres src pg n))) = []"
proof -
  obtain r1 pg1 evs1 where t: "transfer_tables n src pg = (r1, pg1, evs1)"
    by (cases "transfer_tables n src pg")
  from transfer_tables_resource_events [OF t]
  have nr: "resource_events evs1 = []" .
  have 1: "resource_events (snd (snd (load_sqlite_to_postgres src pg n)))
     = [Acquire SrcCursor, Acquire TgtCursor, Release SrcCursor, Release TgtCursor]"
    using t nr by (cases r1) (simp_all add: load_sqlite_to_postgres_def, simp_all add: resource_events_def)
  have "held (snd (snd (load_sqlite_to_postgres src pg n)))
        = held_after [] (resource_events (snd (snd (load_sqlite_to_postgres src pg n))))"
    unfolding held_def by (rule held_after_resource_events)
  with 1 show ?thesis by simp
qed

text \<open>
  C7 as stated does not hold for the connections, which no \<^verbatim>\<open>finally\<close> guards. When the
  target cannot be reached, \<^verbatim>\<open>connect_databases\<close> has opened the source connection,
  prints the exception and returns \<^verbatim>\<open>None\<close>; the main block ends on the TypeError of the
  tuple assignment and the source connection is never closed. The same happens when the
  name \<^verbatim>\<open>psycopg2\<close> is not bound, as the import of line 4 leaves it. With both stores
  reachable the exception of line 137 ends the main block while the target cursor and the
  target connection are open.
\<close>

theorem connections_left_open_counterexample:
  "connect_databases True env_without_target ''project2normalized.db'' sample_url
     = (None, [Acquire SrcConn, Print (Exc OperationalError)])
   \<and> fst (main_block True sample_url env_without_target)
       = Some (TypeError ''cannot unpack non-iterable NoneType object'')
   \<and> held (snd (snd (main_block True sample_url env_without_target))) = [SrcConn]
   \<and> fst (main_block False sample_url sample_env)
       = Some (TypeError ''cannot unpack non-iterable NoneType object'')
   \<and> held (snd (snd (main_block False sample_url sample_env))) = [SrcConn]
   \<and> fst (main_block True sample_url sample_env) = Some (AttributeError ''commit'')
   \<and> held (snd (snd (main_block True sample_url sample_env))) = [TgtCursor, TgtConn]"
proof -
  have "connect_databases True env_without_target ''project2normalized.db'' sample_url
          = (None, [Acquire SrcConn, Print (Exc OperationalError)])"
    by (simp add: connect_databases_def env_without_target_def sample_env_def)
  moreover have "fst (main_block True sample_url env_without_target)
       = Some (TypeError ''cannot unpack non-iterable NoneType object'')
   \<and> held (snd (snd (main_block True sample_url env_without_target))) = [SrcConn]
   \<and> fst (main_block False sample_url sample_env)
       = Some (TypeError ''cannot unpack non-iterable NoneType object'')
   \<and> held (snd (snd (main_block False sample_url sample_env))) = [SrcConn]
   \<and> fst (main_block True sample_url sample_env) = Some (AttributeError ''commit'')
   \<and> held (snd (snd (main_block True sample_url sample_env))) = [TgtCursor, TgtConn]"
    by code_simp
  ultimately show ?thesis by (simp only: simp_thms)
qed

section \<open>Schema reset and transfer\<close>
















section \<open>Every row is stored or its key is held\<close>

lemma foldl_ins_row_stored_or_held:
  "r \<in> set rs \<Longrightarrow>
   r \<in> set (t_rows (foldl ins_row tb rs))
   \<or> (\<exists>r' \<in> set (t_rows (foldl ins_row tb rs)). clash tb r r')"
proof -
  assume "r \<in> set rs"
  then obtain xs ys where split: "rs = xs @ r # ys" by (auto simp: in_set_conv_decomp)
  let ?mid = "foldl ins_row tb xs"
  have final: "foldl ins_row tb rs = foldl ins_row (ins_row ?mid r) ys"
    by (simp add: split)
  show ?thesis
  proof (cases "conflicts ?mid r")
    case True
    then obtain r' where r': "r' \<in> set (t_rows ?mid)" "clash tb r r'"
      by (auto simp: conflicts_iff)
    from r'(1) True have "r' \<in> set (t_rows (ins_row ?mid r))" by (simp add: ins_row_rows)
    then have "r' \<in> set (t_rows (foldl ins_row tb rs))"
      unfolding final by (rule foldl_ins_row_keeps)
    with r'(2) show ?thesis by blast
  next
    case False
    then have "r \<in> set (t_rows (ins_row ?mid r))" by (simp add: ins_row_rows)
    then have "r \<in> set (t_rows (foldl ins_row tb rs))"
      unfolding final by (rule foldl_ins_row_keeps)
    then show ?thesis by blast
  qed
qed

text \<open>
  Without any condition on the keys: after a run that raises no exception, the stored form
  of each row of a source table is in the committed target table, or a row of that table
  holds its key.
\<close>

lemma every_row_stored_or_key_held:
  assumes "0 < n"
      and "load_sqlite_to_postgres src pg n = (None, pg', evs)"
      and "distinct (map fst src)"
      and "(T, cols, rows) \<in> set src" and "i < length rows"
      and "working pg T = Some tb"
  shows "\<exists>tb'. committed pg' T = Some tb'
              \<and> (stored_rows tb cols rows ! i \<in> set (t_rows tb')
                 \<or> (\<exists>r' \<in> set (t_rows tb'). clash tb (stored_rows tb cols rows ! i) r'))"
proof -
  let ?new = "stored_rows tb cols rows"
  from assms(5) have ne: "rows \<noteq> []" by auto
  note run = load_None(1) [OF assms(1,2)]
  note st = store_all_pages_table(1) [OF assms(1) run assms(3,4) ne assms(6)]
  from assms(5) have "?new ! i \<in> set ?new" by simp
  from foldl_ins_row_stored_or_held [OF this, of tb] st show ?thesis by simp
qed

section \<open>Conversions and errors on examples\<close>

text \<open>
  A source with one row per table goes into the empty tables of the schema script without
  an exception; the price is stored in single precision and the order date as a timestamp.
\<close>

lemma small_shop_is_transferred:
  "fst (load_sqlite_to_postgres small_shop staging_target 2) = None
   \<and> rows_of (committed (fst (snd (load_sqlite_to_postgres small_shop staging_target 2))))
        ''Customer''
       = [[IntV 1, TextV ''Ada'', TextV ''Lovelace'', TextV ''1 Main St'', TextV ''Toronto'',
           IntV 1]]
   \<and> rows_of (committed (fst (snd (load_sqlite_to_postgres small_shop staging_target 2))))
        ''Product''
       = [[IntV 1, TextV ''Laptop'', RealV 2528395 (- 11), IntV 1]]
   \<and> rows_of (committed (fst (snd (load_sqlite_to_postgres small_shop staging_target 2))))
        ''OrderDetail''
       = [[IntV 1, IntV 1, IntV 1, TimeV 2012 1 22 0 0 0 0, IntV 3]]"
  by code_simp

text \<open>A key beyond 32 bits is refused, and nothing of the page is stored.\<close>

lemma key_out_of_range_is_refused:
  "fst (load_sqlite_to_postgres
          [(''Region'', [''RegionID'', ''Region''],
            [[IntV 1, TextV ''Americas''], [IntV 2147483648, TextV ''Oceania'']])]
          staging_target 2) = Some NumericValueOutOfRange
   \<and> rows_of (committed (fst (snd (load_sqlite_to_postgres
          [(''Region'', [''RegionID'', ''Region''],
            [[IntV 1, TextV ''Americas''], [IntV 2147483648, TextV ''Oceania'']])]
          staging_target 2)))) ''Region'' = []"
  by code_simp

text \<open>A source table without the key column: the rows are numbered by the sequence.\<close>

lemma omitted_serial_column_takes_sequence:
  "fst (load_sqlite_to_postgres
          [(''Region'', [''Region''], [[TextV ''Americas''], [TextV ''Asia''], [TextV ''Europe'']])]
          staging_target 2) = None
   \<and> rows_of (committed (fst (snd (load_sqlite_to_postgres
          [(''Region'', [''Region''], [[TextV ''Americas''], [TextV ''Asia''], [TextV ''Europe'']])]
          staging_target 2)))) ''Region''
       = [[IntV 1, TextV ''Americas''], [IntV 2, TextV ''Asia''], [IntV 3, TextV ''Europe'']]"
  by code_simp

text \<open>
  The error that is reported. Of two rows with a NULL in a NOT NULL column, the first row
  counts; a value that cannot be converted counts before a NULL of an earlier row; a
  missing parent row counts last.
\<close>

lemma first_error_is_reported:
  "fst (load_sqlite_to_postgres
          [(''Region'', [''RegionID'', ''Region''], [[IntV 1, Null], [Null, TextV ''Asia'']])]
          staging_target 2) = Some (NotNullViolation ''Region'')
   \<and> fst (load_sqlite_to_postgres
          [(''Region'', [''RegionID'', ''Region''],
            [[IntV 1, Null], [IntV 2147483648, TextV ''Asia'']])]
          staging_target 2) = Some NumericValueOutOfRange
   \<and> fst (load_sqlite_to_postgres
          [(''Country'', [''CountryID'', ''Country'', ''RegionID''],
            [[IntV 1, TextV ''Canada'', IntV 1], [IntV 2, Null, IntV 1]])]
          staging_target 2) = Some (NotNullViolation ''Country'')
   \<and> fst (load_sqlite_to_postgres
          [(''Country'', [''CountryID'', ''Country'', ''RegionID''],
            [[IntV 1, TextV ''Canada'', IntV 1]])]
          staging_target 2) = Some (ForeignKeyViolation ''RegionID'')
   \<and> fst (load_sqlite_to_postgres
          [(''Region'', [''RegionID'', ''Region''],
            [[IntV 2147483648, TextV ''Asia''], [TextV ''two'', TextV ''Europe'']])]
          staging_target 2) = Some InvalidTextRepresentation"
  by code_simp

end
